theory Spec2Isabelle
  imports Main "HOL-Library.Word"
begin

unbundle bit_operations_syntax

section \<open>Data model\<close>

text \<open>
  The program is the function \<open>createZIP\<close> of \<open>zip_scripts.js\<close> (lines 246-406) with
  its three nested helpers \<open>calcCRC32\<close>, \<open>write4B\<close> and \<open>write2B\<close>. The file also
  holds an earlier revision of the script (lines 1-231), whose \<open>createZIP\<close> differs in
  one place: \<open>files.map\<close> sets \<open>is_dir\<close> to \<open>false\<close> for every entry. The later
  declaration is the one modelled.

  \<^item> The elements of a \<open>Uint8Array\<close> or \<open>ArrayBuffer\<close> are bytes: \<open>8 word\<close>.
  \<^item> The operands of the JavaScript bitwise operators are converted to 32-bit
    integers first, and the operators work on the bit pattern: \<open>32 word\<close>.
  \<^item> A JavaScript string is a sequence of UTF-16 code units: \<open>16 word list\<close>;
    \<open>s.length\<close> counts code units.
  \<^item> The other numbers of the program (\<open>offset_count\<close>, lengths) are non-negative
    integers, modelled as \<open>nat\<close>; a JavaScript number holds them exactly below \<open>2^53\<close>.
\<close>

type_synonym byte = "8 word"
type_synonym u32 = "32 word"
type_synonym js_string = "16 word list"

section \<open>calcCRC32\<close>

text \<open>
  The inner loop \<open>for (let j = 0; j < 8; j++)\<close>: the first argument counts the
  iterations that remain. \<open>c\<close> is the current byte, shifted right once per iteration;
  \<open>b = (c ^ crc) & 1\<close>; \<open>crc >>>= 1\<close>; \<open>if (b) crc = crc ^ 0xEDB88320\<close>; \<open>c >>>= 1\<close>.
\<close>

fun crc_bits :: "nat \<Rightarrow> u32 \<Rightarrow> u32 \<Rightarrow> u32" where
  "crc_bits 0 c crc = crc"
| "crc_bits (Suc j) c crc =
     (let b = (c XOR crc) AND 1;
          crc1 = drop_bit 1 crc;
          crc2 = (if b \<noteq> 0 then crc1 XOR 0xEDB88320 else crc1)
      in crc_bits j (drop_bit 1 c) crc2)"

text \<open>The outer loop over \<open>data[i]\<close>, with \<open>let c = data[i]\<close>.\<close>

fun crc_bytes :: "byte list \<Rightarrow> u32 \<Rightarrow> u32" where
  "crc_bytes [] crc = crc"
| "crc_bytes (d # ds) crc = crc_bytes ds (crc_bits 8 (ucast d) crc)"

text \<open>\<open>let crc = 0xFFFFFFFF; ...; return ~crc >>> 0\<close>.\<close>

definition calcCRC32 :: "byte list \<Rightarrow> u32" where
  "calcCRC32 dat = NOT (crc_bytes dat 0xFFFFFFFF)"

text \<open>One iteration of the inner loop, as a function of \<open>c\<close> and \<open>crc\<close>.\<close>

definition crc_step :: "u32 \<Rightarrow> u32 \<Rightarrow> u32" where
  "crc_step c crc =
     (if (c XOR crc) AND 1 \<noteq> 0 then drop_bit 1 crc XOR 0xEDB88320 else drop_bit 1 crc)"

subsection \<open>The reference algorithm, as the specification words it\<close>

text \<open>
  "If low bit is 1, shift right and XOR with the polynomial constant; else shift right."
\<close>

definition crc32_ref_shift :: "u32 \<Rightarrow> u32" where
  "crc32_ref_shift r =
     (if bit r 0 then drop_bit 1 r XOR 0xEDB88320 else drop_bit 1 r)"

text \<open>
  "For each input byte, XOR it into the low 8 bits of the register, then perform 8
  iterations."
\<close>

definition crc32_ref_byte :: "u32 \<Rightarrow> byte \<Rightarrow> u32" where
  "crc32_ref_byte r d = (crc32_ref_shift ^^ 8) (r XOR ucast d)"

text \<open>
  "Initialize a 32-bit register to all-ones; ...; after all bytes, the result is the
  one's complement of the register."
\<close>

definition crc32_ref :: "byte list \<Rightarrow> u32" where
  "crc32_ref dat = NOT (foldl crc32_ref_byte 0xFFFFFFFF dat)"

section \<open>write4B and write2B\<close>

text \<open>
  \<open>arr\<close> is a \<open>Uint8Array\<close>; an assignment \<open>arr[i] = x\<close> stores \<open>x\<close> modulo 256 and
  is ignored when \<open>i\<close> is out of range, as \<open>list_update\<close> is. \<open>value\<close> is converted
  to a 32-bit integer by \<open>&\<close>; \<open>>>\<close> is the arithmetic shift and \<open>>>>\<close> the logical one.
\<close>

definition write4B :: "byte list \<Rightarrow> nat \<Rightarrow> nat \<Rightarrow> byte list" where
  "write4B arr start_i val =
     (let v = (of_nat val :: u32) in
      arr[start_i := ucast (v AND 0xFF),
          start_i + 1 := ucast (signed_drop_bit 8 (v AND 0xFF00)),
          start_i + 2 := ucast (signed_drop_bit 16 (v AND 0xFF0000)),
          start_i + 3 := ucast (drop_bit 24 (v AND 0xFF000000))])"

definition write2B :: "byte list \<Rightarrow> nat \<Rightarrow> nat \<Rightarrow> byte list" where
  "write2B arr start_i val =
     (let v = (of_nat val :: u32) in
      arr[start_i := ucast (v AND 0xFF),
          start_i + 1 := ucast (signed_drop_bit 8 (v AND 0xFF00))])"

text \<open>Byte \<open>k\<close> of a number, counted from the least significant one.\<close>

definition byte_of :: "nat \<Rightarrow> nat \<Rightarrow> byte" where
  "byte_of k v = of_nat (v div 256 ^ k)"

section \<open>Normalization: \<open>files.map\<close>\<close>

text \<open>
  The caller's objects have the properties \<open>name\<close> (a string) and \<open>data\<close> (an
  \<open>ArrayBuffer\<close>); the objects built by \<open>files.map\<close> add \<open>crc\<close>, \<open>is_dir\<close> and
  \<open>local_header_offset\<close>, which is \<open>null\<close> until the first loop assigns it.
\<close>

record file_data =
  name :: js_string
  data :: "byte list"

record file_complete = file_data +
  crc :: u32
  is_dir :: bool
  local_header_offset :: "nat option"

text \<open>\<open>s[i]\<close> on a string: the code unit at \<open>i\<close>, or \<open>undefined\<close> out of range.\<close>

definition char_at :: "js_string \<Rightarrow> int \<Rightarrow> 16 word option" where
  "char_at s i = (if 0 \<le> i \<and> i < int (length s) then Some (s ! nat i) else None)"

text \<open>
  The arrow function of \<open>files.map\<close>;
  \<open>is_dir: file.name[file.name.length - 1] === "/"\<close>, and \<open>"/"\<close> is the code unit \<open>0x2F\<close>.
\<close>

definition complete :: "file_data \<Rightarrow> file_complete" where
  "complete f =
     \<lparr>name = name f,
      data = data f,
      crc = calcCRC32 (data f),
      is_dir = (char_at (name f) (int (length (name f)) - 1) = Some 0x2F),
      local_header_offset = None\<rparr>"

text \<open>
  The arrow function of the earlier revision (lines 70-76): the same, but
  \<open>is_dir: false\<close>.
\<close>

definition complete_earlier :: "file_data \<Rightarrow> file_complete" where
  "complete_earlier f =
     \<lparr>name = name f,
      data = data f,
      crc = calcCRC32 (data f),
      is_dir = False,
      local_header_offset = None\<rparr>"

section \<open>The output: \<open>zip_data\<close> and \<open>Blob\<close>\<close>

text \<open>
  \<open>zip_data\<close> collects \<open>ArrayBuffer\<close>s (headers, file data) and strings (names), and
  \<open>new Blob(zip_data)\<close> concatenates them. \<open>Blob\<close> is the browser's (File API): the bytes
  of an \<open>ArrayBuffer\<close> are copied; a string is converted to a sequence of Unicode scalar
  values (a surrogate pair is one code point, a lone surrogate becomes U+FFFD) and
  encoded as UTF-8.
\<close>

datatype blob_part = BufferPart "byte list" | StringPart js_string

definition is_high_surrogate :: "16 word \<Rightarrow> bool" where
  "is_high_surrogate u = (0xD800 \<le> u \<and> u \<le> 0xDBFF)"

definition is_low_surrogate :: "16 word \<Rightarrow> bool" where
  "is_low_surrogate u = (0xDC00 \<le> u \<and> u \<le> 0xDFFF)"

fun usv_string :: "js_string \<Rightarrow> nat list" where
  "usv_string [] = []"
| "usv_string [u] =
     [if is_high_surrogate u \<or> is_low_surrogate u then 0xFFFD else unat u]"
| "usv_string (u # v # us) =
     (if is_high_surrogate u \<and> is_low_surrogate v
      then (0x10000 + (unat u - 0xD800) * 0x400 + (unat v - 0xDC00)) # usv_string us
      else (if is_high_surrogate u \<or> is_low_surrogate u then 0xFFFD else unat u)
             # usv_string (v # us))"

definition utf8_code_point :: "nat \<Rightarrow> byte list" where
  "utf8_code_point cp =
     (if cp < 0x80 then [of_nat cp]
      else if cp < 0x800 then
        [of_nat (0xC0 + cp div 0x40), of_nat (0x80 + cp mod 0x40)]
      else if cp < 0x10000 then
        [of_nat (0xE0 + cp div 0x1000), of_nat (0x80 + cp div 0x40 mod 0x40),
         of_nat (0x80 + cp mod 0x40)]
      else
        [of_nat (0xF0 + cp div 0x40000), of_nat (0x80 + cp div 0x1000 mod 0x40),
         of_nat (0x80 + cp div 0x40 mod 0x40), of_nat (0x80 + cp mod 0x40)])"

definition utf8_encode :: "js_string \<Rightarrow> byte list" where
  "utf8_encode s = concat (map utf8_code_point (usv_string s))"

primrec part_bytes :: "blob_part \<Rightarrow> byte list" where
  "part_bytes (BufferPart b) = b"
| "part_bytes (StringPart s) = utf8_encode s"

definition Blob :: "blob_part list \<Rightarrow> byte list" where
  "Blob parts = concat (map part_bytes parts)"

section \<open>Phase 1: local file headers\<close>

text \<open>
  The body of the first loop up to the assignment of \<open>local_header_offset\<close>:
  \<open>new ArrayBuffer(30)\<close> is 30 zero bytes. \<open>file.crc\<close> is the non-negative number
  \<open>~crc >>> 0\<close>.
\<close>

definition local_header :: "file_complete \<Rightarrow> byte list" where
  "local_header file =
     (let rw_header = replicate 30 0;
          rw_header = write4B rw_header 0 0x04034B50;
          rw_header = write2B rw_header 26 (length (name file))
      in if is_dir file then rw_header[4 := 20]
         else (let rw_header = rw_header[4 := 10];
                   rw_header = write4B rw_header 14 (unat (crc file));
                   rw_header = write4B rw_header 18 (length (data file));
                   rw_header = write4B rw_header 22 (length (data file))
               in rw_header))"

text \<open>The variables that both loops update.\<close>

record zip_state =
  zip_data :: "blob_part list"
  offset_count :: nat

text \<open>
  \<open>for (const file of files_complete)\<close>, first loop. The loop assigns
  \<open>file.local_header_offset\<close> on the elements of \<open>files_complete\<close>; the function returns
  the elements as they are after the loop.
\<close>

fun local_files :: "file_complete list \<Rightarrow> zip_state \<Rightarrow> file_complete list \<times> zip_state" where
  "local_files [] st = ([], st)"
| "local_files (file # files) st =
     (let header = local_header file;
          file1 = file\<lparr>local_header_offset := Some (offset_count st)\<rparr>;
          st = st\<lparr>zip_data := zip_data st @ [BufferPart header]\<rparr>;
          st = st\<lparr>offset_count := offset_count st + length header\<rparr>;
          st = st\<lparr>zip_data := zip_data st @ [StringPart (name file1)]\<rparr>;
          st = st\<lparr>offset_count := offset_count st + length (name file1)\<rparr>;
          st = st\<lparr>zip_data := zip_data st @ [BufferPart (data file1)]\<rparr>;
          st = st\<lparr>offset_count := offset_count st + length (data file1)\<rparr>;
          (files1, st1) = local_files files st
      in (file1 # files1, st1))"

section \<open>Phase 2: central directory\<close>

text \<open>
  \<open>write4B(rw_header, 42, file.local_header_offset)\<close>: \<open>null\<close> would be converted to 0.
  The modes \<open>0o00040755\<close> and \<open>0o00100644\<close> are 16877 and 33188.
\<close>

definition central_header :: "file_complete \<Rightarrow> byte list" where
  "central_header file =
     (let rw_header = replicate 46 0;
          rw_header = write4B rw_header 0 0x02014B50;
          rw_header = rw_header[4 := 63];
          rw_header = rw_header[5 := 3];
          rw_header = write2B rw_header 28 (length (name file));
          rw_header = write4B rw_header 42
            (case local_header_offset file of None \<Rightarrow> 0 | Some n \<Rightarrow> n)
      in if is_dir file then
           (let rw_header = rw_header[6 := 20];
                rw_header = write2B rw_header 40 16877
            in rw_header)
         else
           (let rw_header = rw_header[6 := 10];
                rw_header = write4B rw_header 16 (unat (crc file));
                rw_header = write4B rw_header 20 (length (data file));
                rw_header = write4B rw_header 24 (length (data file));
                rw_header = write2B rw_header 40 33188
            in rw_header))"

fun central_directory :: "file_complete list \<Rightarrow> zip_state \<Rightarrow> zip_state" where
  "central_directory [] st = st"
| "central_directory (file # files) st =
     (let header = central_header file;
          st = st\<lparr>zip_data := zip_data st @ [BufferPart header]\<rparr>;
          st = st\<lparr>offset_count := offset_count st + length header\<rparr>;
          st = st\<lparr>zip_data := zip_data st @ [StringPart (name file)]\<rparr>;
          st = st\<lparr>offset_count := offset_count st + length (name file)\<rparr>
      in central_directory files st)"

section \<open>Phase 3: end of central directory record, and \<open>createZIP\<close>\<close>

text \<open>
  The arguments are \<open>files_complete.length\<close>, \<open>offset_count\<close> and \<open>central_dir_offset\<close>.
  \<open>offset_count\<close> is never below \<open>central_dir_offset\<close>, so the subtraction is exact.
\<close>

definition end_of_central_directory :: "nat \<Rightarrow> nat \<Rightarrow> nat \<Rightarrow> byte list" where
  "end_of_central_directory n offset_cnt central_dir_offset =
     (let rw_end_record = replicate 22 0;
          rw_end_record = write4B rw_end_record 0 0x06054B50;
          rw_end_record = write2B rw_end_record 8 n;
          rw_end_record = write2B rw_end_record 10 n;
          rw_end_record = write4B rw_end_record 12 (offset_cnt - central_dir_offset);
          rw_end_record = write4B rw_end_record 16 central_dir_offset
      in rw_end_record)"

text \<open>
  \<open>createZIP\<close> up to its last line: the array \<open>zip_data\<close> when \<open>createZIP\<close> returns.
\<close>

definition createZIP_zip_data :: "file_data list \<Rightarrow> blob_part list" where
  "createZIP_zip_data files =
     (let files_complete = map complete files;
          (files_complete, st) =
            local_files files_complete \<lparr>zip_data = [], offset_count = 0\<rparr>;
          central_dir_offset = offset_count st;
          st = central_directory files_complete st;
          end_record =
            end_of_central_directory (length files_complete) (offset_count st) central_dir_offset
      in zip_data st @ [BufferPart end_record])"

text \<open>\<open>return new Blob(zip_data)\<close>: the bytes of the blob.\<close>

definition createZIP :: "file_data list \<Rightarrow> byte list" where
  "createZIP files = Blob (createZIP_zip_data files)"

section \<open>Reading the output\<close>

text \<open>Little-endian fields of 2 and 4 bytes at a position of a byte sequence.\<close>

definition u16_at :: "byte list \<Rightarrow> nat \<Rightarrow> nat" where
  "u16_at bs i = unat (bs ! i) + 256 * unat (bs ! (i + 1))"

definition u32_at :: "byte list \<Rightarrow> nat \<Rightarrow> nat" where
  "u32_at bs i =
     unat (bs ! i) + 256 * unat (bs ! (i + 1)) + 65536 * unat (bs ! (i + 2))
       + 16777216 * unat (bs ! (i + 3))"

text \<open>A name all of whose code units are below \<open>0x80\<close>.\<close>

definition ascii :: "js_string \<Rightarrow> bool" where
  "ascii s = list_all (\<lambda>u. u < 0x80) s"

definition ascii_names :: "file_data list \<Rightarrow> bool" where
  "ascii_names files = list_all (\<lambda>f. ascii (name f)) files"

section \<open>Notions used to state the properties\<close>

text \<open>What one iteration of the first loop pushes, and by how much it advances \<open>offset_count\<close>.\<close>

definition local_parts :: "file_complete \<Rightarrow> blob_part list" where
  "local_parts fc = [BufferPart (local_header fc), StringPart (name fc), BufferPart (data fc)]"

definition local_size :: "file_complete \<Rightarrow> nat" where
  "local_size fc = 30 + length (name fc) + length (data fc)"

text \<open>The number that the second loop reads from \<open>file.local_header_offset\<close>.\<close>

definition offset_value :: "file_complete \<Rightarrow> nat" where
  "offset_value fc = (case local_header_offset fc of None \<Rightarrow> 0 | Some n \<Rightarrow> n)"

text \<open>The same for the second loop.\<close>

definition central_parts :: "file_complete \<Rightarrow> blob_part list" where
  "central_parts fc = [BufferPart (central_header fc), StringPart (name fc)]"

definition central_size :: "file_complete \<Rightarrow> nat" where
  "central_size fc = 46 + length (name fc)"

text \<open>The state of the program after the first loop, and after the second.\<close>

definition phase1 :: "file_data list \<Rightarrow> file_complete list \<times> zip_state" where
  "phase1 files = local_files (map complete files) \<lparr>zip_data = [], offset_count = 0\<rparr>"

definition phase2 :: "file_data list \<Rightarrow> zip_state" where
  "phase2 files = central_directory (fst (phase1 files)) (snd (phase1 files))"

text \<open>The elements of \<open>files_complete\<close> after the first loop.\<close>

definition entries :: "file_data list \<Rightarrow> file_complete list" where
  "entries files = fst (phase1 files)"

text \<open>
  The bytes of the output that the first loop produced, those that the second loop
  produced, and the rest (the end record).
\<close>

definition phase1_bytes :: "file_data list \<Rightarrow> byte list" where
  "phase1_bytes files = Blob (zip_data (snd (phase1 files)))"

definition phase2_bytes :: "file_data list \<Rightarrow> byte list" where
  "phase2_bytes files =
     Blob (drop (length (zip_data (snd (phase1 files)))) (zip_data (phase2 files)))"

definition end_record_bytes :: "file_data list \<Rightarrow> byte list" where
  "end_record_bytes files =
     drop (length (phase1_bytes files) + length (phase2_bytes files)) (createZIP files)"

section \<open>The program on an explicit store\<close>

text \<open>
  The caller's array, the caller's objects and their \<open>ArrayBuffer\<close>s are shared with
  \<open>createZIP\<close> by reference. To state what \<open>createZIP\<close> does to them, the program is
  modelled a second time on a store of three kinds of cells, each addressed by its index:
  \<open>ArrayBuffer\<close>s, objects and arrays of object references. A typed array is a view of
  its buffer and is identified with it. An object has the properties \<open>name\<close> and \<open>data\<close>
  (a reference to a buffer) and may have \<open>crc\<close>, \<open>is_dir\<close> and \<open>local_header_offset\<close>
  (absent, \<open>null\<close> or a number). A cell is allocated at the end of its list.
\<close>

record js_object =
  o_name :: js_string
  o_data :: nat
  o_crc :: "u32 option"
  o_is_dir :: "bool option"
  o_local_header_offset :: "nat option option"

record store =
  buffers :: "byte list list"
  objects :: "js_object list"
  arrays :: "nat list list"

text \<open>An element of \<open>zip_data\<close>: a reference to a buffer, or a string.\<close>

datatype zip_item = BufferRef nat | StringItem js_string

text \<open>\<open>new ArrayBuffer(n)\<close>: the new store and the reference.\<close>

definition new_buffer :: "store \<Rightarrow> nat \<Rightarrow> store \<times> nat" where
  "new_buffer s n = (s\<lparr>buffers := buffers s @ [replicate n 0]\<rparr>, length (buffers s))"

text \<open>\<open>arr[i] = v\<close>, \<open>write4B(arr, start_i, value)\<close> and \<open>write2B(arr, start_i, value)\<close>.\<close>

definition set_byte_st :: "store \<Rightarrow> nat \<Rightarrow> nat \<Rightarrow> byte \<Rightarrow> store" where
  "set_byte_st s arr i v = s\<lparr>buffers := (buffers s)[arr := (buffers s ! arr)[i := v]]\<rparr>"

definition write4B_st :: "store \<Rightarrow> nat \<Rightarrow> nat \<Rightarrow> nat \<Rightarrow> store" where
  "write4B_st s arr start_i val =
     s\<lparr>buffers := (buffers s)[arr := write4B (buffers s ! arr) start_i val]\<rparr>"

definition write2B_st :: "store \<Rightarrow> nat \<Rightarrow> nat \<Rightarrow> nat \<Rightarrow> store" where
  "write2B_st s arr start_i val =
     s\<lparr>buffers := (buffers s)[arr := write2B (buffers s ! arr) start_i val]\<rparr>"

text \<open>
  \<open>file.crc\<close> and \<open>file.local_header_offset\<close> as arguments of \<open>write4B\<close>: an absent
  property or \<open>null\<close> is converted to 0.
\<close>

definition crc_number :: "js_object \<Rightarrow> nat" where
  "crc_number ob = (case o_crc ob of None \<Rightarrow> 0 | Some c \<Rightarrow> unat c)"

definition offset_number :: "js_object \<Rightarrow> nat" where
  "offset_number ob = (case o_local_header_offset ob of Some (Some n) \<Rightarrow> n | _ \<Rightarrow> 0)"

text \<open>The arrow function of \<open>files.map\<close>: it allocates a new object.\<close>

definition complete_st :: "store \<Rightarrow> nat \<Rightarrow> store \<times> nat" where
  "complete_st s file =
     (let ob = objects s ! file;
          new = \<lparr>o_name = o_name ob,
                 o_data = o_data ob,
                 o_crc = Some (calcCRC32 (buffers s ! o_data ob)),
                 o_is_dir = Some (char_at (o_name ob) (int (length (o_name ob)) - 1) = Some 0x2F),
                 o_local_header_offset = Some None\<rparr>
      in (s\<lparr>objects := objects s @ [new]\<rparr>, length (objects s)))"

fun map_complete_st :: "store \<Rightarrow> nat list \<Rightarrow> store \<times> nat list" where
  "map_complete_st s [] = (s, [])"
| "map_complete_st s (file # files) =
     (let (s, c) = complete_st s file;
          (s, cs) = map_complete_st s files
      in (s, c # cs))"

text \<open>The body of the first loop up to the assignment of \<open>local_header_offset\<close>.\<close>

definition local_header_st :: "store \<Rightarrow> nat \<Rightarrow> store \<times> nat" where
  "local_header_st s file =
     (let (s, header) = new_buffer s 30;
          s = write4B_st s header 0 0x04034B50;
          s = write2B_st s header 26 (length (o_name (objects s ! file)));
          s = (if o_is_dir (objects s ! file) = Some True then set_byte_st s header 4 20
               else (let s = set_byte_st s header 4 10;
                         s = write4B_st s header 14 (crc_number (objects s ! file));
                         s = write4B_st s header 18
                               (length (buffers s ! o_data (objects s ! file)));
                         s = write4B_st s header 22
                               (length (buffers s ! o_data (objects s ! file)))
                     in s))
      in (s, header))"

text \<open>
  The first loop; the state is the store, \<open>zip_data\<close> and \<open>offset_count\<close>.
  \<open>file.local_header_offset = offset_count\<close> updates the object that \<open>file\<close> refers to.
\<close>

fun local_files_st ::
  "nat list \<Rightarrow> store \<times> zip_item list \<times> nat \<Rightarrow> store \<times> zip_item list \<times> nat" where
  "local_files_st [] st = st"
| "local_files_st (file # files) (s, zip_dat, offset_cnt) =
     (let (s, header) = local_header_st s file;
          s = s\<lparr>objects := (objects s)[file :=
                (objects s ! file)\<lparr>o_local_header_offset := Some (Some offset_cnt)\<rparr>]\<rparr>;
          zip_dat = zip_dat @ [BufferRef header];
          offset_cnt = offset_cnt + length (buffers s ! header);
          zip_dat = zip_dat @ [StringItem (o_name (objects s ! file))];
          offset_cnt = offset_cnt + length (o_name (objects s ! file));
          zip_dat = zip_dat @ [BufferRef (o_data (objects s ! file))];
          offset_cnt = offset_cnt + length (buffers s ! o_data (objects s ! file))
      in local_files_st files (s, zip_dat, offset_cnt))"

text \<open>The second loop.\<close>

definition central_header_st :: "store \<Rightarrow> nat \<Rightarrow> store \<times> nat" where
  "central_header_st s file =
     (let (s, header) = new_buffer s 46;
          s = write4B_st s header 0 0x02014B50;
          s = set_byte_st s header 4 63;
          s = set_byte_st s header 5 3;
          s = write2B_st s header 28 (length (o_name (objects s ! file)));
          s = write4B_st s header 42 (offset_number (objects s ! file));
          s = (if o_is_dir (objects s ! file) = Some True then
                 (let s = set_byte_st s header 6 20;
                      s = write2B_st s header 40 16877
                  in s)
               else
                 (let s = set_byte_st s header 6 10;
                      s = write4B_st s header 16 (crc_number (objects s ! file));
                      s = write4B_st s header 20
                            (length (buffers s ! o_data (objects s ! file)));
                      s = write4B_st s header 24
                            (length (buffers s ! o_data (objects s ! file)));
                      s = write2B_st s header 40 33188
                  in s))
      in (s, header))"

fun central_directory_st ::
  "nat list \<Rightarrow> store \<times> zip_item list \<times> nat \<Rightarrow> store \<times> zip_item list \<times> nat" where
  "central_directory_st [] st = st"
| "central_directory_st (file # files) (s, zip_dat, offset_cnt) =
     (let (s, header) = central_header_st s file;
          zip_dat = zip_dat @ [BufferRef header];
          offset_cnt = offset_cnt + length (buffers s ! header);
          zip_dat = zip_dat @ [StringItem (o_name (objects s ! file))];
          offset_cnt = offset_cnt + length (o_name (objects s ! file))
      in central_directory_st files (s, zip_dat, offset_cnt))"

text \<open>The end record: \<open>n\<close> is \<open>files_complete.length\<close>.\<close>

definition end_record_st :: "store \<Rightarrow> nat \<Rightarrow> nat \<Rightarrow> nat \<Rightarrow> store \<times> nat" where
  "end_record_st s n offset_cnt central_dir_offset =
     (let (s, end_record) = new_buffer s 22;
          s = write4B_st s end_record 0 0x06054B50;
          s = write2B_st s end_record 8 n;
          s = write2B_st s end_record 10 n;
          s = write4B_st s end_record 12 (offset_cnt - central_dir_offset);
          s = write4B_st s end_record 16 central_dir_offset
      in (s, end_record))"

text \<open>\<open>new Blob(zip_data)\<close> copies the bytes that the references point to.\<close>

primrec item_part :: "store \<Rightarrow> zip_item \<Rightarrow> blob_part" where
  "item_part s (BufferRef a) = BufferPart (buffers s ! a)"
| "item_part s (StringItem str) = StringPart str"

definition Blob_st :: "store \<Rightarrow> zip_item list \<Rightarrow> byte list" where
  "Blob_st s items = Blob (map (item_part s) items)"

text \<open>
  \<open>createZIP(files)\<close>, where \<open>files\<close> refers to the caller's array: the store when it
  returns, and the bytes of the blob. \<open>files.map\<close> allocates the array \<open>files_complete\<close>.
\<close>

definition createZIP_st :: "store \<Rightarrow> nat \<Rightarrow> store \<times> byte list" where
  "createZIP_st s files =
     (let (s, cs) = map_complete_st s (arrays s ! files);
          files_complete = length (arrays s);
          s = s\<lparr>arrays := arrays s @ [cs]\<rparr>;
          (s, zip_dat, offset_cnt) = local_files_st (arrays s ! files_complete) (s, [], 0);
          central_dir_offset = offset_cnt;
          (s, zip_dat, offset_cnt) =
            central_directory_st (arrays s ! files_complete) (s, zip_dat, offset_cnt);
          (s, end_record) =
            end_record_st s (length (arrays s ! files_complete)) offset_cnt central_dir_offset;
          zip_dat = zip_dat @ [BufferRef end_record]
      in (s, Blob_st s zip_dat))"

text \<open>
  The caller's list as the pure model takes it: the names and the bytes of the objects
  that the array at \<open>files\<close> refers to.
\<close>

definition files_of :: "store \<Rightarrow> nat \<Rightarrow> file_data list" where
  "files_of s files =
     map (\<lambda>f. \<lparr>name = o_name (objects s ! f), data = buffers s ! o_data (objects s ! f)\<rparr>)
       (arrays s ! files)"

text \<open>
  No reference dangles: \<open>files\<close> refers to an array of the store, its elements to
  objects of the store, and their \<open>data\<close> to buffers of the store.
\<close>

definition well_formed :: "store \<Rightarrow> nat \<Rightarrow> bool" where
  "well_formed s files =
     (files < length (arrays s)
      \<and> list_all (\<lambda>f. f < length (objects s) \<and> o_data (objects s ! f) < length (buffers s))
          (arrays s ! files))"

text \<open>
  The second store has every cell of the first one, with the same content: what was
  allocated before is unchanged.
\<close>

definition extends :: "store \<Rightarrow> store \<Rightarrow> bool" where
  "extends s s' =
     (take (length (buffers s)) (buffers s') = buffers s
      \<and> take (length (objects s)) (objects s') = objects s
      \<and> take (length (arrays s)) (arrays s') = arrays s)"

text \<open>
  The object at \<open>c\<close> as an entry of the pure model: an absent \<open>crc\<close> counts as 0, an
  absent \<open>is_dir\<close> as false, an absent or \<open>null\<close> offset as \<open>null\<close>.
\<close>

definition entry_of :: "store \<Rightarrow> nat \<Rightarrow> file_complete" where
  "entry_of s c =
     (let ob = objects s ! c in
      \<lparr>name = o_name ob,
       data = buffers s ! o_data ob,
       crc = (case o_crc ob of None \<Rightarrow> 0 | Some w \<Rightarrow> w),
       is_dir = (o_is_dir ob = Some True),
       local_header_offset =
         (case o_local_header_offset ob of Some (Some n) \<Rightarrow> Some n | _ \<Rightarrow> None)\<rparr>)"

text \<open>The references of a list of objects, and of \<open>zip_data\<close>, point into the store.\<close>

definition objs_ok :: "store \<Rightarrow> nat list \<Rightarrow> bool" where
  "objs_ok s cs =
     list_all (\<lambda>c. c < length (objects s) \<and> o_data (objects s ! c) < length (buffers s)) cs"

primrec ref_ok :: "store \<Rightarrow> zip_item \<Rightarrow> bool" where
  "ref_ok s (BufferRef a) = (a < length (buffers s))"
| "ref_ok s (StringItem str) = True"

section \<open>Properties of calcCRC32\<close>

lemma crc_bits_Suc:
  "crc_bits (Suc j) c r = crc_bits j (drop_bit 1 c) (crc_step c r)"
  by (simp add: crc_step_def Let_def)

lemma crc_bits_numeral:
  "crc_bits (numeral k) c r = crc_bits (pred_numeral k) (drop_bit 1 c) (crc_step c r)"
  by (simp add: numeral_eq_Suc crc_step_def Let_def)

lemma crc_bits_1:
  "crc_bits 1 c r = crc_step c r"
  by (simp add: crc_step_def Let_def)

lemma crc_step_ref:
  "crc_step c r XOR drop_bit 1 c = crc32_ref_shift (r XOR c)"
proof -
  have b: "((c XOR r) AND 1 \<noteq> 0) = bit (r XOR c) 0"
    by (simp add: and_one_eq bit_0 xor.commute mod_2_eq_odd)
  show ?thesis
    unfolding crc_step_def crc32_ref_shift_def b
    by (simp add: xor.assoc xor.left_commute xor.commute)
qed

text \<open>
  The program consumes the byte bit by bit, the reference XORs it into the register
  at once: after \<open>j\<close> iterations the two registers differ by what is left of the byte.
\<close>

lemma crc_bits_ref:
  "crc_bits j c r XOR drop_bit j c = (crc32_ref_shift ^^ j) (r XOR c)"
proof (induction j arbitrary: c r)
  case 0
  show ?case by simp
next
  case (Suc j)
  have "crc_bits (Suc j) c r XOR drop_bit (Suc j) c
      = crc_bits j (drop_bit 1 c) (crc_step c r) XOR drop_bit j (drop_bit 1 c)"
    by (simp only: crc_bits_Suc drop_bit_drop_bit) simp
  also have "\<dots> = (crc32_ref_shift ^^ j) (crc_step c r XOR drop_bit 1 c)"
    by (rule Suc.IH)
  also have "\<dots> = (crc32_ref_shift ^^ Suc j) (r XOR c)"
    by (simp only: crc_step_ref funpow_Suc_right o_apply)
  finally show ?case .
qed

lemma drop_bit_8_ucast: "drop_bit 8 (ucast (d :: byte) :: u32) = 0"
  by (rule bit_word_eqI) (auto simp add: bit_simps dest: bit_imp_le_length)

lemma crc_bits_8_ref: "crc_bits 8 (ucast d) r = crc32_ref_byte r d"
  using crc_bits_ref [of 8 "ucast d" r]
  by (simp add: drop_bit_8_ucast crc32_ref_byte_def)

lemma crc_bytes_ref: "crc_bytes dat r = foldl crc32_ref_byte r dat"
  by (induction dat arbitrary: r)
    (simp_all only: crc_bytes.simps foldl.simps crc_bits_8_ref)

text \<open>
  C3: \<open>calcCRC32\<close> is the reference reflected CRC-32 with polynomial \<open>0xEDB88320\<close>
  (register initialised to all-ones, each byte XORed into the low 8 bits and followed by 8
  shift/conditional-XOR iterations, one's complement returned); it returns 0 on the
  empty input and \<open>0x414FA339\<close> on the bytes of "The quick brown fox jumps over the
  lazy dog".
\<close>

theorem calcCRC32_reference:
  "calcCRC32 dat = crc32_ref dat
   \<and> calcCRC32 [] = 0
   \<and> calcCRC32 (map (of_nat \<circ> of_char) ''The quick brown fox jumps over the lazy dog'')
       = 0x414FA339"
proof (intro conjI)
  show "calcCRC32 dat = crc32_ref dat"
    by (simp only: calcCRC32_def crc32_ref_def crc_bytes_ref)
  show "calcCRC32 [] = 0"
    by (simp add: calcCRC32_def)
  show "calcCRC32 (map (of_nat \<circ> of_char) ''The quick brown fox jumps over the lazy dog'')
       = 0x414FA339"
    by (simp add: calcCRC32_def crc_bits_numeral crc_bits_1 crc_step_def)
qed

section \<open>Properties of write4B and write2B\<close>

lemma unat_byte_of: "unat (byte_of k v) = v div 256 ^ k mod 256"
  by (simp add: byte_of_def unat_of_nat)

lemma mask_FF: "(0xFF :: u32) = mask 8"
  by (simp add: mask_eq_exp_minus_1)

lemma mask_FF00: "(0xFF00 :: u32) = push_bit 8 (mask 8)"
  by (simp add: mask_eq_exp_minus_1 push_bit_eq_mult)

lemma mask_FF0000: "(0xFF0000 :: u32) = push_bit 16 (mask 8)"
  by (simp add: mask_eq_exp_minus_1 push_bit_eq_mult)

lemma mask_FF000000: "(0xFF000000 :: u32) = push_bit 24 (mask 8)"
  by (simp add: mask_eq_exp_minus_1 push_bit_eq_mult)

lemma ucast_drop_of_nat:
  "(ucast (drop_bit n (of_nat v :: u32)) :: byte) = of_nat (v div 2 ^ n)" if "n + 8 \<le> 32"
  using that
  by (intro bit_word_eqI) (auto simp add: bit_simps simp flip: drop_bit_eq_div)

lemma write_byte0: "(ucast ((of_nat v :: u32) AND 0xFF) :: byte) = byte_of 0 v"
proof -
  have "(ucast ((of_nat v :: u32) AND 0xFF) :: byte) = ucast (drop_bit 0 (of_nat v :: u32))"
    unfolding mask_FF by (rule bit_word_eqI) (simp add: bit_simps)
  then show ?thesis
    using ucast_drop_of_nat [of 0 v] by (simp add: byte_of_def)
qed

lemma write_byte1:
  "(ucast (signed_drop_bit 8 ((of_nat v :: u32) AND 0xFF00)) :: byte) = byte_of 1 v"
proof -
  have "(ucast (signed_drop_bit 8 ((of_nat v :: u32) AND 0xFF00)) :: byte)
      = ucast (drop_bit 8 (of_nat v :: u32))"
    unfolding mask_FF00 by (rule bit_word_eqI) (auto simp add: bit_simps)
  then show ?thesis
    using ucast_drop_of_nat [of 8 v] by (simp add: byte_of_def)
qed

lemma write_byte2:
  "(ucast (signed_drop_bit 16 ((of_nat v :: u32) AND 0xFF0000)) :: byte) = byte_of 2 v"
proof -
  have "(ucast (signed_drop_bit 16 ((of_nat v :: u32) AND 0xFF0000)) :: byte)
      = ucast (drop_bit 16 (of_nat v :: u32))"
    unfolding mask_FF0000 by (rule bit_word_eqI) (auto simp add: bit_simps)
  then show ?thesis
    using ucast_drop_of_nat [of 16 v] by (simp add: byte_of_def)
qed

lemma write_byte3:
  "(ucast (drop_bit 24 ((of_nat v :: u32) AND 0xFF000000)) :: byte) = byte_of 3 v"
proof -
  have "(ucast (drop_bit 24 ((of_nat v :: u32) AND 0xFF000000)) :: byte)
      = ucast (drop_bit 24 (of_nat v :: u32))"
    unfolding mask_FF000000 by (rule bit_word_eqI) (auto simp add: bit_simps)
  then show ?thesis
    using ucast_drop_of_nat [of 24 v] by (simp add: byte_of_def)
qed

lemma write4B_bytes:
  "write4B arr i v =
     arr[i := byte_of 0 v, i + 1 := byte_of 1 v, i + 2 := byte_of 2 v, i + 3 := byte_of 3 v]"
  by (simp only: write4B_def Let_def write_byte0 write_byte1 write_byte2 write_byte3)

lemma write2B_bytes:
  "write2B arr i v = arr[i := byte_of 0 v, i + 1 := byte_of 1 v]"
  by (simp only: write2B_def Let_def write_byte0 write_byte1)

lemma le2_value:
  "unat (byte_of 0 v) + 256 * unat (byte_of 1 v) = v mod 2 ^ 16"
  using mod_mult2_eq [of v 256 256] by (simp add: unat_byte_of)

lemma le4_value:
  "unat (byte_of 0 v) + 256 * unat (byte_of 1 v) + 65536 * unat (byte_of 2 v)
     + 16777216 * unat (byte_of 3 v) = v mod 2 ^ 32"
proof -
  have a: "v mod 4294967296 = 65536 * (v div 65536 mod 65536) + v mod 65536"
    using mod_mult2_eq [of v 65536 65536] by simp
  have b: "v mod 65536 = 256 * (v div 256 mod 256) + v mod 256"
    using mod_mult2_eq [of v 256 256] by simp
  have c: "v div 65536 mod 65536 = 256 * (v div 16777216 mod 256) + v div 65536 mod 256"
    using mod_mult2_eq [of "v div 65536" 256 256] by (simp add: div_mult2_eq [symmetric])
  show ?thesis
    using a b c by (simp add: unat_byte_of)
qed

text \<open>
  C7: for a value in \<open>[0, 2^32)\<close> and a buffer that has the positions written,
  \<open>write4B\<close> stores the four bytes of the value least-significant-first from \<open>start_i\<close>
  (byte \<open>k\<close> is \<open>value div 256^k mod 256\<close>), \<open>write2B\<close> stores the low two bytes in
  the same way, and neither changes the length of the buffer or any other position.
\<close>

theorem write4B_write2B_little_endian:
  assumes "val < 2 ^ 32"
  shows "(start_i + 4 \<le> length arr \<longrightarrow>
           length (write4B arr start_i val) = length arr
           \<and> (\<forall>k<4. unat (write4B arr start_i val ! (start_i + k)) = val div 256 ^ k mod 256)
           \<and> (\<forall>i. i < start_i \<or> start_i + 4 \<le> i \<longrightarrow> write4B arr start_i val ! i = arr ! i))
       \<and> (start_i + 2 \<le> length arr \<longrightarrow>
           length (write2B arr start_i val) = length arr
           \<and> (\<forall>k<2. unat (write2B arr start_i val ! (start_i + k)) = val div 256 ^ k mod 256)
           \<and> (\<forall>i. i < start_i \<or> start_i + 2 \<le> i \<longrightarrow> write2B arr start_i val ! i = arr ! i))"
proof (intro conjI impI allI)
  assume len: "start_i + 4 \<le> length arr"
  show "length (write4B arr start_i val) = length arr"
    by (simp add: write4B_bytes)
  fix k :: nat
  assume "k < 4"
  then consider "k = 0" | "k = 1" | "k = 2" | "k = 3"
    by linarith
  then show "unat (write4B arr start_i val ! (start_i + k)) = val div 256 ^ k mod 256"
    using len by cases (simp_all add: write4B_bytes unat_byte_of)
next
  fix i
  assume "start_i + 4 \<le> length arr" "i < start_i \<or> start_i + 4 \<le> i"
  then show "write4B arr start_i val ! i = arr ! i"
    by (auto simp add: write4B_bytes)
next
  assume len: "start_i + 2 \<le> length arr"
  show "length (write2B arr start_i val) = length arr"
    by (simp add: write2B_bytes)
  fix k :: nat
  assume "k < 2"
  then consider "k = 0" | "k = 1"
    by linarith
  then show "unat (write2B arr start_i val ! (start_i + k)) = val div 256 ^ k mod 256"
    using len by cases (simp_all add: write2B_bytes unat_byte_of)
next
  fix i
  assume "start_i + 2 \<le> length arr" "i < start_i \<or> start_i + 2 \<le> i"
  then show "write2B arr start_i val ! i = arr ! i"
    by (auto simp add: write2B_bytes)
qed

theorem write4B_write2B_little_endian_witness:
  "(67324752 :: nat) < 2 ^ 32
   \<and> 1 + 4 \<le> length (replicate 6 (0 :: byte))
   \<and> 1 + 2 \<le> length (replicate 6 (0 :: byte))
   \<and> unat (write4B (replicate 6 0) 1 67324752 ! (1 + 0)) = 67324752 div 256 ^ 0 mod 256
   \<and> unat (write4B (replicate 6 0) 1 67324752 ! (1 + 3)) = 67324752 div 256 ^ 3 mod 256
   \<and> unat (write2B (replicate 6 0) 1 67324752 ! (1 + 1)) = 67324752 div 256 ^ 1 mod 256
   \<and> write4B (replicate 6 0) 1 67324752 ! 5 = replicate 6 0 ! 5
   \<and> write2B (replicate 6 0) 1 67324752 ! 3 = replicate 6 0 ! 3"
proof -
  have v: "(67324752 :: nat) < 2 ^ 32"
    by simp
  have l4: "1 + 4 \<le> length (replicate 6 (0 :: byte))" and l2: "1 + 2 \<le> length (replicate 6 (0 :: byte))"
    by simp_all
  note t = write4B_write2B_little_endian [OF v, of 1 "replicate 6 0"]
  from t l4 have b4: "\<forall>k<4. unat (write4B (replicate 6 0) 1 67324752 ! (1 + k)) = 67324752 div 256 ^ k mod 256"
    and f4: "\<forall>i. i < 1 \<or> 1 + 4 \<le> i \<longrightarrow> write4B (replicate 6 0) 1 67324752 ! i = replicate 6 0 ! i"
    by blast+
  from t l2 have b2: "\<forall>k<2. unat (write2B (replicate 6 0) 1 67324752 ! (1 + k)) = 67324752 div 256 ^ k mod 256"
    and f2: "\<forall>i. i < 1 \<or> 1 + 2 \<le> i \<longrightarrow> write2B (replicate 6 0) 1 67324752 ! i = replicate 6 0 ! i"
    by blast+
  have "0 < (4 :: nat)" "3 < (4 :: nat)" "1 < (2 :: nat)"
    by simp_all
  with b4 b2 have
    "unat (write4B (replicate 6 0) 1 67324752 ! (1 + 0)) = 67324752 div 256 ^ 0 mod 256"
    "unat (write4B (replicate 6 0) 1 67324752 ! (1 + 3)) = 67324752 div 256 ^ 3 mod 256"
    "unat (write2B (replicate 6 0) 1 67324752 ! (1 + 1)) = 67324752 div 256 ^ 1 mod 256"
    by blast+
  moreover from f4 have "write4B (replicate 6 0) 1 67324752 ! 5 = replicate 6 0 ! 5"
    by simp
  moreover from f2 have "write2B (replicate 6 0) 1 67324752 ! 3 = replicate 6 0 ! 3"
    by simp
  ultimately show ?thesis
    using v l4 l2 by blast
qed

section \<open>The layout of the headers\<close>

lemma list_update_Cons_numeral:
  "(x # xs)[numeral k := v] = x # xs[pred_numeral k := v]"
  by (simp add: numeral_eq_Suc)

lemmas layout_simps = write4B_bytes write2B_bytes list_update_Cons_numeral Let_def

lemma byte_of_eval:
  "byte_of 0 v = of_nat v"
  "byte_of (Suc 0) v = of_nat (v div 256)"
  "byte_of 1 v = of_nat (v div 256)"
  "byte_of 2 v = of_nat (v div 65536)"
  "byte_of 3 v = of_nat (v div 16777216)"
  by (simp_all add: byte_of_def)

lemma replicate_22: "replicate 22 (0 :: byte) = [0,0,0,0,0,0,0,0,0,0,0,0,0,0,0,0,0,0,0,0,0,0]"
  by (simp add: numeral_eq_Suc)

lemma replicate_30:
  "replicate 30 (0 :: byte) =
     [0,0,0,0,0,0,0,0,0,0,0,0,0,0,0,0,0,0,0,0,0,0,0,0,0,0,0,0,0,0]"
  by (simp add: numeral_eq_Suc)

lemma replicate_46:
  "replicate 46 (0 :: byte) =
     [0,0,0,0,0,0,0,0,0,0,0,0,0,0,0,0,0,0,0,0,0,0,0,0,0,0,0,0,0,0,
      0,0,0,0,0,0,0,0,0,0,0,0,0,0,0,0]"
  by (simp add: numeral_eq_Suc)

lemma end_signature:
  "byte_of 0 0x06054B50 = 0x50" "byte_of (Suc 0) 0x06054B50 = 0x4B"
  "byte_of 2 0x06054B50 = 0x05" "byte_of 3 0x06054B50 = 0x06"
  by (simp_all add: byte_of_eval)

lemma local_signature:
  "byte_of 0 0x04034B50 = 0x50" "byte_of (Suc 0) 0x04034B50 = 0x4B"
  "byte_of 2 0x04034B50 = 0x03" "byte_of 3 0x04034B50 = 0x04"
  by (simp_all add: byte_of_eval)

lemma central_signature:
  "byte_of 0 0x02014B50 = 0x50" "byte_of (Suc 0) 0x02014B50 = 0x4B"
  "byte_of 2 0x02014B50 = 0x01" "byte_of 3 0x02014B50 = 0x02"
  by (simp_all add: byte_of_eval)

lemma mode_bytes:
  "byte_of 0 16877 = 0xED" "byte_of (Suc 0) 16877 = 0x41"
  "byte_of 0 33188 = 0xA4" "byte_of (Suc 0) 33188 = 0x81"
  by (simp_all add: byte_of_eval)

lemma end_record_layout:
  "end_of_central_directory n oc cdo =
     [0x50, 0x4B, 0x05, 0x06, 0, 0, 0, 0,
      byte_of 0 n, byte_of 1 n, byte_of 0 n, byte_of 1 n,
      byte_of 0 (oc - cdo), byte_of 1 (oc - cdo), byte_of 2 (oc - cdo), byte_of 3 (oc - cdo),
      byte_of 0 cdo, byte_of 1 cdo, byte_of 2 cdo, byte_of 3 cdo, 0, 0]"
  by (simp add: end_of_central_directory_def replicate_22 layout_simps end_signature)

lemma local_header_dir_layout:
  "is_dir fc \<Longrightarrow> local_header fc =
     [0x50, 0x4B, 0x03, 0x04, 20, 0, 0, 0, 0, 0, 0, 0, 0, 0,
      0, 0, 0, 0, 0, 0, 0, 0, 0, 0, 0, 0,
      byte_of 0 (length (name fc)), byte_of 1 (length (name fc)), 0, 0]"
  by (simp add: local_header_def replicate_30 layout_simps local_signature)

lemma local_header_file_layout:
  "\<not> is_dir fc \<Longrightarrow> local_header fc =
     [0x50, 0x4B, 0x03, 0x04, 10, 0, 0, 0, 0, 0, 0, 0, 0, 0,
      byte_of 0 (unat (crc fc)), byte_of 1 (unat (crc fc)),
      byte_of 2 (unat (crc fc)), byte_of 3 (unat (crc fc)),
      byte_of 0 (length (data fc)), byte_of 1 (length (data fc)),
      byte_of 2 (length (data fc)), byte_of 3 (length (data fc)),
      byte_of 0 (length (data fc)), byte_of 1 (length (data fc)),
      byte_of 2 (length (data fc)), byte_of 3 (length (data fc)),
      byte_of 0 (length (name fc)), byte_of 1 (length (name fc)), 0, 0]"
  by (simp add: local_header_def replicate_30 layout_simps local_signature)

lemma central_header_dir_layout:
  "is_dir fc \<Longrightarrow> central_header fc =
     [0x50, 0x4B, 0x01, 0x02, 63, 3, 20, 0, 0, 0, 0, 0, 0, 0, 0, 0,
      0, 0, 0, 0, 0, 0, 0, 0, 0, 0, 0, 0,
      byte_of 0 (length (name fc)), byte_of 1 (length (name fc)),
      0, 0, 0, 0, 0, 0, 0, 0, 0, 0, 0xED, 0x41,
      byte_of 0 (offset_value fc), byte_of 1 (offset_value fc),
      byte_of 2 (offset_value fc), byte_of 3 (offset_value fc)]"
  by (simp add: central_header_def replicate_46 layout_simps central_signature mode_bytes
      offset_value_def)

lemma central_header_file_layout:
  "\<not> is_dir fc \<Longrightarrow> central_header fc =
     [0x50, 0x4B, 0x01, 0x02, 63, 3, 10, 0, 0, 0, 0, 0, 0, 0, 0, 0,
      byte_of 0 (unat (crc fc)), byte_of 1 (unat (crc fc)),
      byte_of 2 (unat (crc fc)), byte_of 3 (unat (crc fc)),
      byte_of 0 (length (data fc)), byte_of 1 (length (data fc)),
      byte_of 2 (length (data fc)), byte_of 3 (length (data fc)),
      byte_of 0 (length (data fc)), byte_of 1 (length (data fc)),
      byte_of 2 (length (data fc)), byte_of 3 (length (data fc)),
      byte_of 0 (length (name fc)), byte_of 1 (length (name fc)),
      0, 0, 0, 0, 0, 0, 0, 0, 0, 0, 0xA4, 0x81,
      byte_of 0 (offset_value fc), byte_of 1 (offset_value fc),
      byte_of 2 (offset_value fc), byte_of 3 (offset_value fc)]"
  by (simp add: central_header_def replicate_46 layout_simps central_signature mode_bytes
      offset_value_def)

lemma length_local_header: "length (local_header fc) = 30"
  by (simp add: local_header_def layout_simps)

lemma length_central_header: "length (central_header fc) = 46"
  by (simp add: central_header_def layout_simps)

lemma length_end_record: "length (end_of_central_directory n oc cdo) = 22"
  by (simp add: end_of_central_directory_def layout_simps)

section \<open>The two loops\<close>

lemma local_files_snd:
  "snd (local_files fcs st) =
     \<lparr>zip_data = zip_data st @ concat (map local_parts fcs),
      offset_count = offset_count st + sum_list (map local_size fcs)\<rparr>"
proof (induction fcs arbitrary: st)
  case Nil
  show ?case by simp
next
  case (Cons fc fcs)
  show ?case
    by (simp add: Let_def split_beta Cons.IH local_parts_def local_size_def length_local_header)
qed

lemma local_files_length: "length (fst (local_files fcs st)) = length fcs"
  by (induction fcs arbitrary: st) (simp_all add: Let_def split_beta)

lemma local_files_nth:
  "i < length fcs \<Longrightarrow>
   fst (local_files fcs st) ! i =
     (fcs ! i)\<lparr>local_header_offset :=
        Some (offset_count st + sum_list (map local_size (take i fcs)))\<rparr>"
proof (induction fcs arbitrary: st i)
  case Nil
  then show ?case by simp
next
  case (Cons fc fcs)
  show ?case
  proof (cases i)
    case 0
    then show ?thesis by (simp add: Let_def split_beta)
  next
    case (Suc j)
    with Cons.prems have "j < length fcs" by simp
    from Cons.IH [OF this] Suc show ?thesis
      by (simp add: Let_def split_beta local_size_def length_local_header)
  qed
qed

lemma central_directory_eq:
  "central_directory fcs st =
     \<lparr>zip_data = zip_data st @ concat (map central_parts fcs),
      offset_count = offset_count st + sum_list (map central_size fcs)\<rparr>"
proof (induction fcs arbitrary: st)
  case Nil
  show ?case by simp
next
  case (Cons fc fcs)
  show ?case
    by (simp add: Let_def Cons.IH central_parts_def central_size_def length_central_header)
qed

section \<open>The structure of the output\<close>

lemma length_entries: "length (entries files) = length files"
  by (simp add: entries_def phase1_def local_files_length)

lemma entries_nth:
  "i < length files \<Longrightarrow>
   entries files ! i =
     (complete (files ! i))\<lparr>local_header_offset :=
        Some (sum_list (map local_size (take i (map complete files))))\<rparr>"
  by (simp add: entries_def phase1_def local_files_nth)

lemma entries_fields:
  assumes "i < length files"
  shows "name (entries files ! i) = name (files ! i)"
    and "data (entries files ! i) = data (files ! i)"
    and "crc (entries files ! i) = calcCRC32 (data (files ! i))"
    and "is_dir (entries files ! i) = is_dir (complete (files ! i))"
  using assms by (simp_all add: entries_nth complete_def)

lemma local_header_offset_update [simp]:
  "local_header (fc\<lparr>local_header_offset := x\<rparr>) = local_header fc"
  by (simp add: local_header_def Let_def)

lemma local_size_offset_update [simp]:
  "local_size (fc\<lparr>local_header_offset := x\<rparr>) = local_size fc"
  by (simp add: local_size_def)

lemma central_size_offset_update [simp]:
  "central_size (fc\<lparr>local_header_offset := x\<rparr>) = central_size fc"
  by (simp add: central_size_def)

lemma local_parts_offset_update [simp]:
  "local_parts (fc\<lparr>local_header_offset := x\<rparr>) = local_parts fc"
  by (simp add: local_parts_def)

lemma map_entries:
  assumes "\<And>fc x. g (fc\<lparr>local_header_offset := x\<rparr>) = g fc"
  shows "map g (entries files) = map g (map complete files)"
  by (rule nth_equalityI) (simp_all add: length_entries entries_nth assms)

lemma phase1_snd:
  "snd (phase1 files) =
     \<lparr>zip_data = concat (map local_parts (map complete files)),
      offset_count = sum_list (map local_size (map complete files))\<rparr>"
  by (simp add: phase1_def local_files_snd)

lemma phase2_eq:
  "phase2 files =
     \<lparr>zip_data = concat (map local_parts (map complete files))
                  @ concat (map central_parts (entries files)),
      offset_count = sum_list (map local_size (map complete files))
                  + sum_list (map central_size (entries files))\<rparr>"
  by (simp add: phase2_def central_directory_eq phase1_snd entries_def)

lemma createZIP_zip_data_eq:
  "createZIP_zip_data files =
     concat (map local_parts (map complete files))
     @ concat (map central_parts (entries files))
     @ [BufferPart (end_of_central_directory (length files)
          (sum_list (map local_size (map complete files))
             + sum_list (map central_size (entries files)))
          (sum_list (map local_size (map complete files))))]"
proof -
  have p: "local_files (map complete files) \<lparr>zip_data = [], offset_count = 0\<rparr>
      = (entries files, snd (phase1 files))"
    by (simp add: entries_def phase1_def)
  show ?thesis
    unfolding createZIP_zip_data_def
    by (simp add: Let_def p phase1_snd central_directory_eq length_entries)
qed

lemma Blob_append: "Blob (xs @ ys) = Blob xs @ Blob ys"
  by (simp add: Blob_def)

lemma phase1_bytes_eq:
  "phase1_bytes files = Blob (concat (map local_parts (map complete files)))"
  by (simp add: phase1_bytes_def phase1_snd)

lemma phase2_bytes_eq:
  "phase2_bytes files = Blob (concat (map central_parts (entries files)))"
  by (simp add: phase2_bytes_def phase1_snd phase2_eq)

lemma createZIP_eq:
  "createZIP files =
     phase1_bytes files @ phase2_bytes files
     @ end_of_central_directory (length files)
          (sum_list (map local_size (map complete files))
             + sum_list (map central_size (entries files)))
          (sum_list (map local_size (map complete files)))"
  by (simp add: createZIP_def createZIP_zip_data_eq Blob_append phase1_bytes_eq phase2_bytes_eq)
    (simp add: Blob_def)

lemma end_record_bytes_eq:
  "end_record_bytes files =
     end_of_central_directory (length files)
          (sum_list (map local_size (map complete files))
             + sum_list (map central_size (entries files)))
          (sum_list (map local_size (map complete files)))"
  unfolding end_record_bytes_def by (subst createZIP_eq) simp

lemma usv_string_ascii: "ascii s \<Longrightarrow> usv_string s = map unat s"
proof (induction s rule: usv_string.induct)
  case 1
  show ?case by simp
next
  case (2 u)
  then show ?case
    by (auto simp add: ascii_def is_high_surrogate_def is_low_surrogate_def
        word_le_nat_alt word_less_nat_alt)
next
  case (3 u v us)
  then show ?case
    by (auto simp add: ascii_def is_high_surrogate_def is_low_surrogate_def
        word_le_nat_alt word_less_nat_alt)
qed

lemma utf8_code_point_ascii: "u < 0x80 \<Longrightarrow> utf8_code_point (unat u) = [ucast u]"
  for u :: "16 word"
  by (simp add: utf8_code_point_def word_less_nat_alt)

lemma utf8_encode_ascii: "ascii s \<Longrightarrow> utf8_encode s = map ucast s"
  unfolding utf8_encode_def
  by (induction s) (simp_all add: usv_string_ascii utf8_code_point_ascii ascii_def)

lemma length_utf8_encode_ascii: "ascii s \<Longrightarrow> length (utf8_encode s) = length s"
  by (simp add: utf8_encode_ascii)

lemma Blob_local_parts:
  "Blob (local_parts fc) = local_header fc @ utf8_encode (name fc) @ data fc"
  by (simp add: Blob_def local_parts_def)

lemma Blob_central_parts:
  "Blob (central_parts fc) = central_header fc @ utf8_encode (name fc)"
  by (simp add: Blob_def central_parts_def)

lemma Blob_concat_map: "Blob (concat (map g xs)) = concat (map (\<lambda>x. Blob (g x)) xs)"
  by (induction xs) (simp_all add: Blob_def)

lemma length_concat_sum: "length (concat (map g xs)) = sum_list (map (\<lambda>x. length (g x)) xs)"
  by (induction xs) simp_all

lemma ascii_names_nth: "ascii_names files \<Longrightarrow> i < length files \<Longrightarrow> ascii (name (files ! i))"
  by (simp add: ascii_names_def list_all_length)

lemma length_phase1_bytes_ascii:
  assumes "ascii_names files"
  shows "length (phase1_bytes files) = sum_list (map local_size (map complete files))"
proof -
  have "map (\<lambda>fc. length (Blob (local_parts fc))) (map complete files)
      = map local_size (map complete files)"
    using assms
    by (intro nth_equalityI)
      (simp_all add: Blob_local_parts length_local_header local_size_def complete_def
        length_utf8_encode_ascii ascii_names_nth)
  then show ?thesis
    by (simp only: phase1_bytes_eq Blob_concat_map length_concat_sum)
qed

lemma length_phase2_bytes_ascii:
  assumes "ascii_names files"
  shows "length (phase2_bytes files) = sum_list (map central_size (entries files))"
proof -
  have "map (\<lambda>fc. length (Blob (central_parts fc))) (entries files)
      = map central_size (entries files)"
    using assms
    by (intro nth_equalityI)
      (simp_all add: Blob_central_parts length_central_header central_size_def length_entries
        entries_fields length_utf8_encode_ascii ascii_names_nth)
  then show ?thesis
    by (simp only: phase2_bytes_eq Blob_concat_map length_concat_sum)
qed

lemma phase_offsets:
  "offset_count (snd (phase1 files)) = sum_list (map local_size (map complete files))"
  "offset_count (phase2 files) - offset_count (snd (phase1 files))
     = sum_list (map central_size (entries files))"
  by (simp_all add: phase1_snd phase2_eq)

lemma u16_at_end_record:
  "u16_at (end_of_central_directory n oc cdo) 8 = n mod 2 ^ 16"
  "u16_at (end_of_central_directory n oc cdo) 10 = n mod 2 ^ 16"
  using le2_value [of n] by (simp_all add: end_record_layout u16_at_def)

lemma u32_at_end_record:
  "u32_at (end_of_central_directory n oc cdo) 12 = (oc - cdo) mod 2 ^ 32"
  "u32_at (end_of_central_directory n oc cdo) 16 = cdo mod 2 ^ 32"
  using le4_value [of "oc - cdo"] le4_value [of cdo]
  by (simp_all add: end_record_layout u32_at_def)

lemma take_drop_concat_map:
  assumes "\<And>x. length (g x) = k" and "i < length xs"
  shows "take k (drop (k * i) (concat (map g xs) @ ys)) = g (xs ! i)"
  using assms(2)
proof (induction xs arbitrary: i)
  case Nil
  then show ?case by simp
next
  case (Cons x xs)
  show ?case
  proof (cases i)
    case 0
    then show ?thesis by (simp add: assms(1))
  next
    case (Suc j)
    with Cons.prems have j: "j < length xs" by simp
    have "drop (k * Suc j) (concat (map g (x # xs)) @ ys) = drop (k * j) (concat (map g xs) @ ys)"
      by (simp add: assms(1))
    with Cons.IH [OF j] Suc show ?thesis by simp
  qed
qed

lemma length_concat_map_const:
  assumes "\<And>x. length (g x) = k"
  shows "length (concat (map g xs)) = k * length xs"
  by (induction xs) (simp_all add: assms)

lemma length_local_parts: "length (local_parts fc) = 3"
  by (simp add: local_parts_def)

lemma length_central_parts: "length (central_parts fc) = 2"
  by (simp add: central_parts_def)

lemma zip_data_local:
  assumes "i < length files"
  shows "take 3 (drop (3 * i) (createZIP_zip_data files)) = local_parts (entries files ! i)"
proof -
  have "take 3 (drop (3 * i) (createZIP_zip_data files)) = local_parts (map complete files ! i)"
    unfolding createZIP_zip_data_eq
    by (rule take_drop_concat_map) (simp_all add: length_local_parts assms)
  then show ?thesis
    using assms by (simp add: entries_nth)
qed

lemma zip_data_central:
  assumes "i < length files"
  shows "take 2 (drop (3 * length files + 2 * i) (createZIP_zip_data files))
       = central_parts (entries files ! i)"
proof -
  have len: "length (concat (map local_parts (map complete files))) = 3 * length files"
    using length_concat_map_const [of local_parts 3 "map complete files"]
    by (simp add: length_local_parts)
  have "take 2 (drop (2 * i) (concat (map central_parts (entries files)) @
          [BufferPart (end_of_central_directory (length files)
          (sum_list (map local_size (map complete files))
             + sum_list (map central_size (entries files)))
          (sum_list (map local_size (map complete files))))])) = central_parts (entries files ! i)"
    by (rule take_drop_concat_map) (simp_all add: length_central_parts assms length_entries)
  then show ?thesis
    unfolding createZIP_zip_data_eq using len by (simp flip: drop_drop)
qed

section \<open>The fields of the headers\<close>

lemma is_dir_complete: "is_dir (complete f) = (name f \<noteq> [] \<and> last (name f) = 0x2F)"
proof (cases "name f = []")
  case True
  then show ?thesis by (simp add: complete_def char_at_def)
next
  case False
  then have "nat (int (length (name f)) - 1) = length (name f) - 1"
    by simp
  with False show ?thesis
    by (simp add: complete_def char_at_def last_conv_nth)
qed

lemma ends_with_iff: "(\<exists>p. s = p @ [x]) = (s \<noteq> [] \<and> last s = x)"
  by (metis last_snoc snoc_eq_iff_butlast)

lemma local_header_dir_fields:
  assumes "is_dir fc"
  shows "u32_at (local_header fc) 14 = 0" "u32_at (local_header fc) 18 = 0"
    "u32_at (local_header fc) 22 = 0" "local_header fc ! 4 = 20"
  using assms by (simp_all add: local_header_dir_layout u32_at_def)

lemma unat_crc_mod: "unat (w :: u32) mod 2 ^ 32 = unat w"
proof -
  have "unat w < 2 ^ LENGTH(32)"
    by (rule unsigned_less)
  then show ?thesis by simp
qed

lemma local_header_file_fields:
  assumes "\<not> is_dir fc"
  shows "u32_at (local_header fc) 14 = unat (crc fc)"
    "u32_at (local_header fc) 18 = length (data fc) mod 2 ^ 32"
    "u32_at (local_header fc) 22 = length (data fc) mod 2 ^ 32"
    "local_header fc ! 4 = 10"
  using assms le4_value [of "unat (crc fc)"] le4_value [of "length (data fc)"]
    unat_crc_mod [of "crc fc"]
  by (simp_all add: local_header_file_layout u32_at_def)

lemma local_header_name_length:
  "u16_at (local_header fc) 26 = length (name fc) mod 2 ^ 16"
  using le2_value [of "length (name fc)"]
  by (cases "is_dir fc") (simp_all add: local_header_dir_layout local_header_file_layout u16_at_def)


lemma central_header_name_length:
  "u16_at (central_header fc) 28 = length (name fc) mod 2 ^ 16"
  using le2_value [of "length (name fc)"]
  by (cases "is_dir fc")
    (simp_all add: central_header_dir_layout central_header_file_layout u16_at_def)

lemma central_header_offset:
  "u32_at (central_header fc) 42 = offset_value fc mod 2 ^ 32"
  using le4_value [of "offset_value fc"]
  by (cases "is_dir fc")
    (simp_all add: central_header_dir_layout central_header_file_layout u32_at_def)

lemma central_header_dir_fields:
  assumes "is_dir fc"
  shows "u32_at (central_header fc) 16 = 0" "u32_at (central_header fc) 20 = 0"
    "u32_at (central_header fc) 24 = 0" "central_header fc ! 6 = 20"
    "u16_at (central_header fc) 38 = 0" "u16_at (central_header fc) 40 = 16877"
  using assms by (simp_all add: central_header_dir_layout u32_at_def u16_at_def)

lemma central_header_file_fields:
  assumes "\<not> is_dir fc"
  shows "u32_at (central_header fc) 16 = unat (crc fc)"
    "u32_at (central_header fc) 20 = length (data fc) mod 2 ^ 32"
    "u32_at (central_header fc) 24 = length (data fc) mod 2 ^ 32"
    "central_header fc ! 6 = 10"
    "u16_at (central_header fc) 38 = 0" "u16_at (central_header fc) 40 = 33188"
  using assms le4_value [of "unat (crc fc)"] le4_value [of "length (data fc)"]
    unat_crc_mod [of "crc fc"]
  by (simp_all add: central_header_file_layout u32_at_def u16_at_def)

lemma u32_at_u16_at: "u32_at bs i = u16_at bs i + 65536 * u16_at bs (i + 2)"
  by (simp add: u32_at_def u16_at_def numeral_3_eq_3)

lemma entries_offset_value:
  "i < length files \<Longrightarrow>
   local_header_offset (entries files ! i)
     = Some (sum_list (map local_size (take i (map complete files))))"
  by (simp add: entries_nth)

section \<open>Entries and their headers in the output\<close>

lemma nth_of_take_drop:
  assumes "take k (drop n xs) = y # ys"
  shows "xs ! n = y"
proof -
  from assms have k: "0 < k"
    by (cases k) auto
  from assms have "drop n xs \<noteq> []"
    by auto
  then have n: "n < length xs"
    by simp
  have "hd (take k (drop n xs)) = hd (drop n xs)"
    using k by simp
  with assms n show ?thesis
    by (simp add: hd_drop_conv_nth)
qed

lemma zip_data_local_header:
  "i < length files \<Longrightarrow>
   createZIP_zip_data files ! (3 * i) = BufferPart (local_header (entries files ! i))"
  using zip_data_local [of i files] by (auto simp add: local_parts_def dest: nth_of_take_drop)

lemma zip_data_central_header:
  "i < length files \<Longrightarrow>
   createZIP_zip_data files ! (3 * length files + 2 * i)
     = BufferPart (central_header (entries files ! i))"
  using zip_data_central [of i files] by (auto simp add: central_parts_def dest: nth_of_take_drop)

lemma is_dir_entries:
  "i < length files \<Longrightarrow> is_dir (entries files ! i) = (\<exists>p. name (files ! i) = p @ [0x2F])"
  by (simp add: entries_fields is_dir_complete ends_with_iff)

text \<open>
  The two revisions of the normalization differ exactly on the names that end with
  \<open>/\<close>: the earlier one never sets the flag.
\<close>

lemma complete_earlier_eq:
  "(complete_earlier f = complete f) = (\<not> (\<exists>p. name f = p @ [0x2F]))"
proof -
  have "(complete_earlier f = complete f) = (\<not> is_dir (complete f))"
    by (auto simp add: complete_earlier_def complete_def)
  then show ?thesis
    by (simp add: is_dir_complete ends_with_iff)
qed

subsection \<open>The last byte of a name in the output\<close>

lemma utf8_code_point_not_Nil: "utf8_code_point cp \<noteq> []"
  by (simp add: utf8_code_point_def)

lemma of_nat_byte_eq_slash:
  assumes "n < 256"
  shows "((of_nat n :: byte) = 0x2F) = (n = 0x2F)"
proof -
  have "unat (of_nat n :: byte) = n mod 2 ^ LENGTH(8)"
    by (rule unat_of_nat)
  with assms have u: "unat (of_nat n :: byte) = n"
    by simp
  have "((of_nat n :: byte) = 0x2F) = (unat (of_nat n :: byte) = unat (0x2F :: byte))"
    by (rule word_unat_eq_iff)
  with u show ?thesis
    by simp
qed

lemma last_utf8_code_point: "(last (utf8_code_point cp) = 0x2F) = (cp = 0x2F)"
proof (cases "cp < 0x80")
  case True
  then show ?thesis
    using of_nat_byte_eq_slash [of cp] by (simp add: utf8_code_point_def)
next
  case False
  have "0x80 + cp mod 0x40 < 256"
    by simp
  from of_nat_byte_eq_slash [OF this] False show ?thesis
    by (simp add: utf8_code_point_def del: of_nat_add of_nat_numeral)
qed

lemma unat_eq_slash: "(unat u = 0x2F) = (u = 0x2F)" for u :: "16 word"
proof -
  have "(u = 0x2F) = (unat u = unat (0x2F :: 16 word))"
    by (rule word_unat_eq_iff)
  then show ?thesis
    by simp
qed

lemma surrogate_not_slash:
  "is_high_surrogate u \<or> is_low_surrogate u \<Longrightarrow> u \<noteq> 0x2F"
  by (auto simp add: is_high_surrogate_def is_low_surrogate_def)

lemma usv_string_not_Nil: "s \<noteq> [] \<Longrightarrow> usv_string s \<noteq> []"
  by (induction s rule: usv_string.induct) simp_all

lemma last_usv_string: "s \<noteq> [] \<Longrightarrow> (last (usv_string s) = 0x2F) = (last s = 0x2F)"
proof (induction s rule: usv_string.induct)
  case 1
  then show ?case by simp
next
  case (2 u)
  then show ?case
    using surrogate_not_slash [of u] by (auto simp add: unat_eq_slash)
next
  case (3 u v us)
  show ?case
  proof (cases "is_high_surrogate u \<and> is_low_surrogate v")
    case True
    then have eq: "usv_string (u # v # us)
        = (0x10000 + (unat u - 0xD800) * 0x400 + (unat v - 0xDC00)) # usv_string us"
      by (simp only: usv_string.simps simp_thms if_True)
    show ?thesis
    proof (cases "us = []")
      case Nil: True
      from True surrogate_not_slash [of v] have "v \<noteq> 0x2F"
        by simp
      with Nil show ?thesis
        unfolding eq by simp
    next
      case False
      from usv_string_not_Nil [OF False] have "last (usv_string (u # v # us)) = last (usv_string us)"
        unfolding eq by simp
      moreover from False have "last (u # v # us) = last us"
        by simp
      ultimately show ?thesis
        using "3.IH"(1) [OF True False] by simp
    qed
  next
    case False
    then obtain x where eq: "usv_string (u # v # us) = x # usv_string (v # us)"
      by (simp only: usv_string.simps simp_thms if_False)
    have ne: "usv_string (v # us) \<noteq> []"
      by (rule usv_string_not_Nil) simp
    then have "last (usv_string (u # v # us)) = last (usv_string (v # us))"
      unfolding eq by (simp only: last.simps if_False)
    moreover have "last (u # v # us) = last (v # us)"
      by simp
    moreover have "(last (usv_string (v # us)) = 0x2F) = (last (v # us) = 0x2F)"
      by (rule "3.IH"(2) [OF False]) simp
    ultimately show ?thesis
      by (simp only:)
  qed
qed

lemma last_concat_map:
  assumes "xs \<noteq> []" and "\<And>x. g x \<noteq> []"
  shows "last (concat (map g xs)) = last (g (last xs))"
  using assms(1)
proof (induction xs)
  case Nil
  then show ?case by simp
next
  case (Cons x xs)
  show ?case
  proof (cases "xs = []")
    case True
    then show ?thesis by simp
  next
    case False
    then have "concat (map g xs) \<noteq> []"
      using assms(2) by (cases xs) simp_all
    with False Cons.IH show ?thesis
      by simp
  qed
qed

lemma last_utf8_encode:
  assumes "s \<noteq> []"
  shows "utf8_encode s \<noteq> []" and "(last (utf8_encode s) = 0x2F) = (last s = 0x2F)"
proof -
  from assms have n: "usv_string s \<noteq> []"
    by (rule usv_string_not_Nil)
  then show "utf8_encode s \<noteq> []"
    unfolding utf8_encode_def by (cases "usv_string s") (simp_all add: utf8_code_point_not_Nil)
  have "last (utf8_encode s) = last (utf8_code_point (last (usv_string s)))"
    unfolding utf8_encode_def using n utf8_code_point_not_Nil by (rule last_concat_map)
  then show "(last (utf8_encode s) = 0x2F) = (last s = 0x2F)"
    by (simp add: last_utf8_code_point last_usv_string [OF assms])
qed

lemma utf8_encode_ends_with_slash:
  "(\<exists>q. utf8_encode s = q @ [0x2F]) = (\<exists>p. s = p @ [0x2F])"
proof (cases "s = []")
  case True
  then show ?thesis
    by (simp add: utf8_encode_def)
next
  case False
  with last_utf8_encode [OF False] show ?thesis
    by (simp add: ends_with_iff)
qed

text \<open>
  C5: for every entry produced by the normalization, the directory flag is true if and
  only if the name ends with the path separator \<open>/\<close>: its last code unit is \<open>0x2F\<close>,
  which is the case exactly when the last byte of the name in the output is \<open>0x2F\<close>.
\<close>

theorem is_dir_iff_name_ends_with_slash:
  "is_dir (complete f) = (\<exists>p. name f = p @ [0x2F])
   \<and> is_dir (complete f) = (\<exists>q. utf8_encode (name f) = q @ [0x2F])"
proof -
  have "is_dir (complete f) = (\<exists>p. name f = p @ [0x2F])"
    by (simp add: is_dir_complete ends_with_iff)
  then show ?thesis
    by (simp only: utf8_encode_ends_with_slash)
qed

text \<open>
  C6: for every directory entry (name ending in \<open>/\<close>), the CRC-32 field, the
  compressed-size field and the uncompressed-size field are 0 in its local file header
  (bytes 14, 18 and 22 of the buffer pushed for it by the first loop) and in its
  central-directory header (bytes 16, 20 and 24 of the buffer pushed by the second loop).
\<close>

theorem directory_fields_zero:
  assumes "i < length files" and "name (files ! i) = p @ [0x2F]"
  shows "createZIP_zip_data files ! (3 * i) = BufferPart (local_header (entries files ! i))
    \<and> createZIP_zip_data files ! (3 * length files + 2 * i)
        = BufferPart (central_header (entries files ! i))
    \<and> u32_at (local_header (entries files ! i)) 14 = 0
    \<and> u32_at (local_header (entries files ! i)) 18 = 0
    \<and> u32_at (local_header (entries files ! i)) 22 = 0
    \<and> u32_at (central_header (entries files ! i)) 16 = 0
    \<and> u32_at (central_header (entries files ! i)) 20 = 0
    \<and> u32_at (central_header (entries files ! i)) 24 = 0"
proof -
  from assms have "is_dir (entries files ! i)"
    by (simp add: is_dir_entries)
  then show ?thesis
    using assms(1)
    by (simp add: zip_data_local_header zip_data_central_header local_header_dir_fields
        central_header_dir_fields)
qed

theorem directory_fields_zero_witness:
  "(0 :: nat) < length [\<lparr>name = [0x64, 0x2F], data = []\<rparr>]
   \<and> name ([\<lparr>name = [0x64, 0x2F], data = []\<rparr>] ! 0) = [0x64] @ [0x2F]
   \<and> createZIP_zip_data [\<lparr>name = [0x64, 0x2F], data = []\<rparr>] ! (3 * 0)
        = BufferPart (local_header (entries [\<lparr>name = [0x64, 0x2F], data = []\<rparr>] ! 0))
   \<and> u32_at (local_header (entries [\<lparr>name = [0x64, 0x2F], data = []\<rparr>] ! 0)) 14 = 0
   \<and> u32_at (central_header (entries [\<lparr>name = [0x64, 0x2F], data = []\<rparr>] ! 0)) 24 = 0"
proof -
  have i: "(0 :: nat) < length [\<lparr>name = [0x64, 0x2F], data = []\<rparr>]"
    by simp
  have n: "name ([\<lparr>name = [0x64, 0x2F], data = []\<rparr>] ! 0) = [0x64] @ [0x2F]"
    by simp
  from directory_fields_zero [OF i n] i n show ?thesis
    by blast
qed

text \<open>
  C8: for every entry, the 4-byte external-file-attributes field at byte 38 of its
  central-directory header has the UNIX mode in its high-order 16 bits, octal 040755 for
  a directory entry and octal 100644 for a file entry, and 0 in its low-order 16 bits.
\<close>

theorem external_attributes_mode:
  assumes "i < length files"
  shows "createZIP_zip_data files ! (3 * length files + 2 * i)
        = BufferPart (central_header (entries files ! i))
    \<and> is_dir (entries files ! i) = (\<exists>p. name (files ! i) = p @ [0x2F])
    \<and> u32_at (central_header (entries files ! i)) 38 div 2 ^ 16
        = (if is_dir (entries files ! i) then 4 * 8 ^ 4 + 0 * 8 ^ 3 + 7 * 8 ^ 2 + 5 * 8 + 5
           else 1 * 8 ^ 5 + 0 * 8 ^ 4 + 0 * 8 ^ 3 + 6 * 8 ^ 2 + 4 * 8 + 4)
    \<and> u32_at (central_header (entries files ! i)) 38 mod 2 ^ 16 = 0"
proof (cases "is_dir (entries files ! i)")
  case True
  then show ?thesis
    using assms
    by (simp add: zip_data_central_header is_dir_entries [symmetric] u32_at_u16_at
        central_header_dir_fields)
next
  case False
  then show ?thesis
    using assms
    by (simp add: zip_data_central_header is_dir_entries [symmetric] u32_at_u16_at
        central_header_file_fields)
qed

theorem external_attributes_mode_witness:
  "(1 :: nat) < length [\<lparr>name = [0x64, 0x2F], data = []\<rparr>, \<lparr>name = [0x61], data = [1]\<rparr>]
   \<and> u32_at (central_header
        (entries [\<lparr>name = [0x64, 0x2F], data = []\<rparr>, \<lparr>name = [0x61], data = [1]\<rparr>] ! 1)) 38
        div 2 ^ 16
      = (if is_dir (entries [\<lparr>name = [0x64, 0x2F], data = []\<rparr>, \<lparr>name = [0x61], data = [1]\<rparr>] ! 1)
         then 4 * 8 ^ 4 + 0 * 8 ^ 3 + 7 * 8 ^ 2 + 5 * 8 + 5
         else 1 * 8 ^ 5 + 0 * 8 ^ 4 + 0 * 8 ^ 3 + 6 * 8 ^ 2 + 4 * 8 + 4)
   \<and> u32_at (central_header
        (entries [\<lparr>name = [0x64, 0x2F], data = []\<rparr>, \<lparr>name = [0x61], data = [1]\<rparr>] ! 1)) 38
        mod 2 ^ 16 = 0"
proof -
  have i: "(1 :: nat) < length [\<lparr>name = [0x64, 0x2F], data = []\<rparr>, \<lparr>name = [0x61], data = [1]\<rparr>]"
    by simp
  from external_attributes_mode [OF i] i show ?thesis
    by blast
qed

text \<open>
  C2, amended: for every built archive whose names consist of code units below \<open>0x80\<close>,
  the output is the bytes of the first loop, then those of the second loop, then the
  22-byte end record; both entry-count fields of the end record hold the number of input
  entries modulo \<open>2^16\<close>, its central-directory-size field holds the number of bytes
  emitted by the second loop modulo \<open>2^32\<close>, and its central-directory-offset field holds
  the number of bytes emitted by the first loop modulo \<open>2^32\<close>.
\<close>

theorem end_record_fields:
  assumes "ascii_names files"
  shows "createZIP files = phase1_bytes files @ phase2_bytes files @ end_record_bytes files
    \<and> length (end_record_bytes files) = 22
    \<and> u16_at (end_record_bytes files) 8 = length files mod 2 ^ 16
    \<and> u16_at (end_record_bytes files) 10 = length files mod 2 ^ 16
    \<and> u32_at (end_record_bytes files) 12 = length (phase2_bytes files) mod 2 ^ 32
    \<and> u32_at (end_record_bytes files) 16 = length (phase1_bytes files) mod 2 ^ 32"
proof (intro conjI)
  show "createZIP files = phase1_bytes files @ phase2_bytes files @ end_record_bytes files"
    by (simp only: end_record_bytes_eq) (rule createZIP_eq)
  show "length (end_record_bytes files) = 22"
    by (simp only: end_record_bytes_eq length_end_record)
  show "u16_at (end_record_bytes files) 8 = length files mod 2 ^ 16"
    by (simp only: end_record_bytes_eq u16_at_end_record)
  show "u16_at (end_record_bytes files) 10 = length files mod 2 ^ 16"
    by (simp only: end_record_bytes_eq u16_at_end_record)
  show "u32_at (end_record_bytes files) 12 = length (phase2_bytes files) mod 2 ^ 32"
    by (simp only: end_record_bytes_eq u32_at_end_record length_phase2_bytes_ascii [OF assms])
      simp
  show "u32_at (end_record_bytes files) 16 = length (phase1_bytes files) mod 2 ^ 32"
    by (simp only: end_record_bytes_eq u32_at_end_record length_phase1_bytes_ascii [OF assms])
qed

theorem end_record_fields_witness:
  "ascii_names [\<lparr>name = [0x61, 0x2E, 0x74, 0x78, 0x74], data = [1, 2]\<rparr>]
   \<and> u16_at (end_record_bytes [\<lparr>name = [0x61, 0x2E, 0x74, 0x78, 0x74], data = [1, 2]\<rparr>]) 8
       = length [\<lparr>name = [0x61, 0x2E, 0x74, 0x78, 0x74], data = [1, 2]\<rparr>] mod 2 ^ 16
   \<and> u32_at (end_record_bytes [\<lparr>name = [0x61, 0x2E, 0x74, 0x78, 0x74], data = [1, 2]\<rparr>]) 12
       = length (phase2_bytes [\<lparr>name = [0x61, 0x2E, 0x74, 0x78, 0x74], data = [1, 2]\<rparr>]) mod 2 ^ 32
   \<and> u32_at (end_record_bytes [\<lparr>name = [0x61, 0x2E, 0x74, 0x78, 0x74], data = [1, 2]\<rparr>]) 16
       = length (phase1_bytes [\<lparr>name = [0x61, 0x2E, 0x74, 0x78, 0x74], data = [1, 2]\<rparr>]) mod 2 ^ 32"
proof -
  have a: "ascii_names [\<lparr>name = [0x61, 0x2E, 0x74, 0x78, 0x74], data = [1, 2]\<rparr>]"
    by (simp add: ascii_names_def ascii_def)
  from end_record_fields [OF a] a show ?thesis
    by blast
qed

text \<open>
  The claim C2 as it is stated fails for 65536 entries: the entry-count field at byte 8
  of the end record is not the number of input entries.
\<close>

theorem end_record_count_counterexample:
  "u16_at (end_record_bytes (replicate 65536 \<lparr>name = [], data = []\<rparr>)) 8
     \<noteq> length (replicate 65536 \<lparr>name = [], data = []\<rparr>)"
  by (simp only: end_record_bytes_eq u16_at_end_record length_replicate) simp

lemma sum_local_size_Suc:
  "i < length xs \<Longrightarrow>
   sum_list (map local_size (take (Suc i) xs)) = sum_list (map local_size (take i xs)) + local_size (xs ! i)"
  by (simp add: take_Suc_conv_app_nth)

lemma offset_value_entries:
  "i < length files \<Longrightarrow>
   offset_value (entries files ! i) = sum_list (map local_size (take i (map complete files)))"
  by (simp add: offset_value_def entries_nth)

lemma split_parts_at:
  "xs = take n xs @ take k (drop n xs) @ drop (n + k) xs"
  by (metis append_take_drop_id drop_drop add.commute)

text \<open>
  C10: for an entry whose name ends with \<open>/\<close>, whatever its data, the first loop
  pushes the header, the name and all of the data (so the data bytes follow the name bytes
  in the output), the CRC-32 and both size fields are 0 in both headers, and the running
  offset advances by 30 plus the name length plus the data length: this is the recorded
  offset of the next entry, or the offset after the first loop when the entry is the last.
\<close>

theorem directory_data_is_emitted:
  assumes "i < length files" and "name (files ! i) = p @ [0x2F]"
  shows "take 3 (drop (3 * i) (createZIP_zip_data files))
        = [BufferPart (local_header (entries files ! i)), StringPart (name (files ! i)),
           BufferPart (data (files ! i))]
    \<and> createZIP files
        = Blob (take (3 * i) (createZIP_zip_data files))
          @ local_header (entries files ! i) @ utf8_encode (name (files ! i)) @ data (files ! i)
          @ Blob (drop (3 * i + 3) (createZIP_zip_data files))
    \<and> u32_at (local_header (entries files ! i)) 14 = 0
    \<and> u32_at (local_header (entries files ! i)) 18 = 0
    \<and> u32_at (local_header (entries files ! i)) 22 = 0
    \<and> u32_at (central_header (entries files ! i)) 16 = 0
    \<and> u32_at (central_header (entries files ! i)) 20 = 0
    \<and> u32_at (central_header (entries files ! i)) 24 = 0
    \<and> local_header_offset (entries files ! i) = Some (offset_value (entries files ! i))
    \<and> (if Suc i < length files
        then local_header_offset (entries files ! Suc i)
          = Some (offset_value (entries files ! i) + 30 + length (name (files ! i))
                    + length (data (files ! i)))
        else offset_count (snd (phase1 files))
          = offset_value (entries files ! i) + 30 + length (name (files ! i))
              + length (data (files ! i)))"
proof (intro conjI)
  let ?e = "entries files ! i"
  let ?zd = "createZIP_zip_data files"
  from assms have dir: "is_dir ?e"
    by (simp add: is_dir_entries)
  show parts: "take 3 (drop (3 * i) ?zd)
      = [BufferPart (local_header ?e), StringPart (name (files ! i)), BufferPart (data (files ! i))]"
    using assms(1) by (simp add: zip_data_local local_parts_def entries_fields)
  have "createZIP files = Blob (take (3 * i) ?zd @ take 3 (drop (3 * i) ?zd) @ drop (3 * i + 3) ?zd)"
    unfolding createZIP_def using split_parts_at [of ?zd "3 * i" 3] by simp
  then show "createZIP files
        = Blob (take (3 * i) ?zd)
          @ local_header ?e @ utf8_encode (name (files ! i)) @ data (files ! i)
          @ Blob (drop (3 * i + 3) ?zd)"
    unfolding parts by (simp add: Blob_append) (simp add: Blob_def)
  show "u32_at (local_header ?e) 14 = 0" "u32_at (local_header ?e) 18 = 0"
    "u32_at (local_header ?e) 22 = 0"
    using dir by (simp_all add: local_header_dir_fields)
  show "u32_at (central_header ?e) 16 = 0" "u32_at (central_header ?e) 20 = 0"
    "u32_at (central_header ?e) 24 = 0"
    using dir by (simp_all add: central_header_dir_fields)
  show "local_header_offset ?e = Some (offset_value ?e)"
    using assms(1) by (simp add: entries_nth offset_value_def)
  have size: "local_size (map complete files ! i) = 30 + length (name (files ! i)) + length (data (files ! i))"
    using assms(1) by (simp add: local_size_def complete_def)
  show "if Suc i < length files
        then local_header_offset (entries files ! Suc i)
          = Some (offset_value ?e + 30 + length (name (files ! i)) + length (data (files ! i)))
        else offset_count (snd (phase1 files))
          = offset_value ?e + 30 + length (name (files ! i)) + length (data (files ! i))"
  proof (cases "Suc i < length files")
    case True
    then show ?thesis
      using assms(1) size sum_local_size_Suc [of i "map complete files"]
      by (simp add: entries_offset_value offset_value_entries)
  next
    case False
    with assms(1) have "take (Suc i) (map complete files) = map complete files"
      by simp
    with False show ?thesis
      using assms(1) size sum_local_size_Suc [of i "map complete files"]
      by (simp add: phase_offsets offset_value_entries)
  qed
qed

theorem directory_data_is_emitted_witness:
  "(0 :: nat) < length [\<lparr>name = [0x64, 0x2F], data = [1, 2]\<rparr>, \<lparr>name = [0x61], data = []\<rparr>]
   \<and> name ([\<lparr>name = [0x64, 0x2F], data = [1, 2]\<rparr>, \<lparr>name = [0x61], data = []\<rparr>] ! 0) = [0x64] @ [0x2F]
   \<and> data ([\<lparr>name = [0x64, 0x2F], data = [1, 2]\<rparr>, \<lparr>name = [0x61], data = []\<rparr>] ! 0) = [1, 2]
   \<and> take 3 (drop (3 * 0) (createZIP_zip_data [\<lparr>name = [0x64, 0x2F], data = [1, 2]\<rparr>, \<lparr>name = [0x61], data = []\<rparr>]))
        = [BufferPart (local_header (entries [\<lparr>name = [0x64, 0x2F], data = [1, 2]\<rparr>, \<lparr>name = [0x61], data = []\<rparr>] ! 0)), StringPart (name ([\<lparr>name = [0x64, 0x2F], data = [1, 2]\<rparr>, \<lparr>name = [0x61], data = []\<rparr>] ! 0)),
           BufferPart (data ([\<lparr>name = [0x64, 0x2F], data = [1, 2]\<rparr>, \<lparr>name = [0x61], data = []\<rparr>] ! 0))]
   \<and> u32_at (local_header (entries [\<lparr>name = [0x64, 0x2F], data = [1, 2]\<rparr>, \<lparr>name = [0x61], data = []\<rparr>] ! 0)) 18 = 0
   \<and> local_header_offset (entries [\<lparr>name = [0x64, 0x2F], data = [1, 2]\<rparr>, \<lparr>name = [0x61], data = []\<rparr>] ! Suc 0)
        = Some (offset_value (entries [\<lparr>name = [0x64, 0x2F], data = [1, 2]\<rparr>, \<lparr>name = [0x61], data = []\<rparr>] ! 0) + 30 + length (name ([\<lparr>name = [0x64, 0x2F], data = [1, 2]\<rparr>, \<lparr>name = [0x61], data = []\<rparr>] ! 0))
                  + length (data ([\<lparr>name = [0x64, 0x2F], data = [1, 2]\<rparr>, \<lparr>name = [0x61], data = []\<rparr>] ! 0)))"
proof -
  have i: "(0 :: nat) < length [\<lparr>name = [0x64, 0x2F], data = [1, 2]\<rparr>, \<lparr>name = [0x61], data = []\<rparr>]"
    by simp
  have n: "name ([\<lparr>name = [0x64, 0x2F], data = [1, 2]\<rparr>, \<lparr>name = [0x61], data = []\<rparr>] ! 0) = [0x64] @ [0x2F]"
    by simp
  have d: "data ([\<lparr>name = [0x64, 0x2F], data = [1, 2]\<rparr>, \<lparr>name = [0x61], data = []\<rparr>] ! 0) = [1, 2]"
    by simp
  have s: "Suc 0 < length [\<lparr>name = [0x64, 0x2F], data = [1, 2]\<rparr>, \<lparr>name = [0x61], data = []\<rparr>]"
    by simp
  from directory_data_is_emitted [OF i n] have
    "take 3 (drop (3 * 0) (createZIP_zip_data [\<lparr>name = [0x64, 0x2F], data = [1, 2]\<rparr>, \<lparr>name = [0x61], data = []\<rparr>]))
        = [BufferPart (local_header (entries [\<lparr>name = [0x64, 0x2F], data = [1, 2]\<rparr>, \<lparr>name = [0x61], data = []\<rparr>] ! 0)), StringPart (name ([\<lparr>name = [0x64, 0x2F], data = [1, 2]\<rparr>, \<lparr>name = [0x61], data = []\<rparr>] ! 0)),
           BufferPart (data ([\<lparr>name = [0x64, 0x2F], data = [1, 2]\<rparr>, \<lparr>name = [0x61], data = []\<rparr>] ! 0))]"
    "u32_at (local_header (entries [\<lparr>name = [0x64, 0x2F], data = [1, 2]\<rparr>, \<lparr>name = [0x61], data = []\<rparr>] ! 0)) 18 = 0"
    "if Suc 0 < length [\<lparr>name = [0x64, 0x2F], data = [1, 2]\<rparr>, \<lparr>name = [0x61], data = []\<rparr>]
        then local_header_offset (entries [\<lparr>name = [0x64, 0x2F], data = [1, 2]\<rparr>, \<lparr>name = [0x61], data = []\<rparr>] ! Suc 0)
          = Some (offset_value (entries [\<lparr>name = [0x64, 0x2F], data = [1, 2]\<rparr>, \<lparr>name = [0x61], data = []\<rparr>] ! 0) + 30 + length (name ([\<lparr>name = [0x64, 0x2F], data = [1, 2]\<rparr>, \<lparr>name = [0x61], data = []\<rparr>] ! 0))
                    + length (data ([\<lparr>name = [0x64, 0x2F], data = [1, 2]\<rparr>, \<lparr>name = [0x61], data = []\<rparr>] ! 0)))
        else offset_count (snd (phase1 [\<lparr>name = [0x64, 0x2F], data = [1, 2]\<rparr>, \<lparr>name = [0x61], data = []\<rparr>]))
          = offset_value (entries [\<lparr>name = [0x64, 0x2F], data = [1, 2]\<rparr>, \<lparr>name = [0x61], data = []\<rparr>] ! 0) + 30 + length (name ([\<lparr>name = [0x64, 0x2F], data = [1, 2]\<rparr>, \<lparr>name = [0x61], data = []\<rparr>] ! 0))
              + length (data ([\<lparr>name = [0x64, 0x2F], data = [1, 2]\<rparr>, \<lparr>name = [0x61], data = []\<rparr>] ! 0))"
    by blast+
  with i n d s show ?thesis
    by simp
qed

section \<open>Names with code units from \<open>0x80\<close>\<close>

lemmas eval_simps =
  createZIP_def createZIP_zip_data_def phase1_def phase2_def Let_def
  complete_def char_at_def calcCRC32_def crc_bits_numeral crc_bits_1 crc_step_def
  local_header_def central_header_def end_of_central_directory_def
  write4B_bytes write2B_bytes byte_of_eval replicate_22 replicate_30 replicate_46
  list_update_Cons_numeral
  Blob_def utf8_encode_def utf8_code_point_def is_high_surrogate_def is_low_surrogate_def
  entries_def

lemma non_ascii_output:
  "createZIP [\<lparr>name = [0xE9], data = []\<rparr>, \<lparr>name = [0x62], data = []\<rparr>] =
     [80, 75, 3, 4, 10, 0, 0, 0, 0, 0, 0, 0, 0, 0, 0, 0, 0, 0, 0, 0, 0, 0, 0, 0,
      0, 0, 1, 0, 0, 0, 195, 169,
      80, 75, 3, 4, 10, 0, 0, 0, 0, 0, 0, 0, 0, 0, 0, 0, 0, 0, 0, 0, 0, 0, 0, 0,
      0, 0, 1, 0, 0, 0, 98,
      80, 75, 1, 2, 63, 3, 10, 0, 0, 0, 0, 0, 0, 0, 0, 0, 0, 0, 0, 0, 0, 0, 0, 0,
      0, 0, 0, 0, 1, 0, 0, 0, 0, 0, 0, 0, 0, 0, 0, 0, 164, 129, 0, 0, 0, 0, 195, 169,
      80, 75, 1, 2, 63, 3, 10, 0, 0, 0, 0, 0, 0, 0, 0, 0, 0, 0, 0, 0, 0, 0, 0, 0,
      0, 0, 0, 0, 1, 0, 0, 0, 0, 0, 0, 0, 0, 0, 0, 0, 164, 129, 31, 0, 0, 0, 98,
      80, 75, 5, 6, 0, 0, 0, 0, 2, 0, 2, 0, 94, 0, 0, 0, 62, 0, 0, 0, 0, 0]"
  by (simp add: eval_simps)

lemma non_ascii_entries:
  "entries [\<lparr>name = [0xE9], data = []\<rparr>, \<lparr>name = [0x62], data = []\<rparr>] =
     [\<lparr>name = [0xE9], data = [], crc = 0, is_dir = False, local_header_offset = Some 0\<rparr>,
      \<lparr>name = [0x62], data = [], crc = 0, is_dir = False, local_header_offset = Some 31\<rparr>]"
  by (simp add: eval_simps)

text \<open>
  C1 at the input of two empty files, the first named by the single code unit \<open>0xE9\<close>
  (two bytes in UTF-8) and the second named "b": the first entry takes 32 bytes of the
  output, so the local header of the second entry, with its signature, begins at byte 32;
  the offset recorded for it, and written at byte 42 of its central-directory header, is
  31.
\<close>

theorem local_header_offset_non_ascii_name:
  "let files = [\<lparr>name = [0xE9], data = []\<rparr>, \<lparr>name = [0x62], data = []\<rparr>];
       out = createZIP files
   in take 32 out = local_header (entries files ! 0) @ [0xC3, 0xA9]
    \<and> take 30 (drop 32 out) = local_header (entries files ! 1)
    \<and> take 4 (drop 32 out) = [0x50, 0x4B, 0x03, 0x04]
    \<and> take 4 (drop 31 out) = [0xA9, 0x50, 0x4B, 0x03]
    \<and> local_header_offset (entries files ! 1) = Some 31
    \<and> take 46 (drop 111 out) = central_header (entries files ! 1)
    \<and> u32_at (central_header (entries files ! 1)) 42 = 31"
  unfolding Let_def non_ascii_output non_ascii_entries
  by (simp add: local_header_def central_header_def layout_simps byte_of_eval
      replicate_30 replicate_46 u32_at_def)

section \<open>The store: what was allocated before is unchanged\<close>

lemma take_eq_length: "take n xs = ys \<Longrightarrow> length ys = n \<Longrightarrow> n \<le> length xs"
  by auto

lemma extends_lengths:
  assumes "extends s s'"
  shows "length (buffers s) \<le> length (buffers s')"
    and "length (objects s) \<le> length (objects s')"
    and "length (arrays s) \<le> length (arrays s')"
  using assms unfolding extends_def by (metis take_eq_length)+

lemma extends_refl: "extends s s"
  by (simp add: extends_def)

lemma extends_new_buffer:
  assumes "extends s0 s"
  shows "extends s0 (fst (new_buffer s n))"
  using assms extends_lengths [OF assms] by (simp add: extends_def new_buffer_def)

lemma new_buffer_simps:
  "snd (new_buffer s n) = length (buffers s)"
  "objects (fst (new_buffer s n)) = objects s"
  "arrays (fst (new_buffer s n)) = arrays s"
  "length (buffers (fst (new_buffer s n))) = Suc (length (buffers s))"
  by (simp_all add: new_buffer_def)

lemma extends_write:
  assumes "extends s0 s" and "length (buffers s0) \<le> arr"
  shows "extends s0 (write4B_st s arr i v)" and "extends s0 (write2B_st s arr i v)"
    and "extends s0 (set_byte_st s arr i b)"
  using assms by (simp_all add: extends_def write4B_st_def write2B_st_def set_byte_st_def)

lemma write_simps:
  "objects (write4B_st s arr i v) = objects s" "arrays (write4B_st s arr i v) = arrays s"
  "length (buffers (write4B_st s arr i v)) = length (buffers s)"
  "objects (write2B_st s arr i v) = objects s" "arrays (write2B_st s arr i v) = arrays s"
  "length (buffers (write2B_st s arr i v)) = length (buffers s)"
  "objects (set_byte_st s arr i b) = objects s" "arrays (set_byte_st s arr i b) = arrays s"
  "length (buffers (set_byte_st s arr i b)) = length (buffers s)"
  by (simp_all add: write4B_st_def write2B_st_def set_byte_st_def)

lemma extends_local_header_st:
  assumes "extends s0 s"
  shows "extends s0 (fst (local_header_st s file))"
    and "objects (fst (local_header_st s file)) = objects s"
    and "arrays (fst (local_header_st s file)) = arrays s"
proof -
  have h: "length (buffers s0) \<le> snd (new_buffer s 30)"
    using extends_lengths(1) [OF assms] by (simp add: new_buffer_simps)
  show "extends s0 (fst (local_header_st s file))"
    unfolding local_header_st_def Let_def split_beta
    by (simp add: extends_write extends_new_buffer assms h)
  show "objects (fst (local_header_st s file)) = objects s"
    unfolding local_header_st_def Let_def split_beta
    by (simp add: write_simps new_buffer_simps)
  show "arrays (fst (local_header_st s file)) = arrays s"
    unfolding local_header_st_def Let_def split_beta
    by (simp add: write_simps new_buffer_simps)
qed

lemma extends_central_header_st:
  assumes "extends s0 s"
  shows "extends s0 (fst (central_header_st s file))"
    and "objects (fst (central_header_st s file)) = objects s"
    and "arrays (fst (central_header_st s file)) = arrays s"
proof -
  have h: "length (buffers s0) \<le> snd (new_buffer s 46)"
    using extends_lengths(1) [OF assms] by (simp add: new_buffer_simps)
  show "extends s0 (fst (central_header_st s file))"
    unfolding central_header_st_def Let_def split_beta
    by (simp add: extends_write extends_new_buffer assms h)
  show "objects (fst (central_header_st s file)) = objects s"
    unfolding central_header_st_def Let_def split_beta
    by (simp add: write_simps new_buffer_simps)
  show "arrays (fst (central_header_st s file)) = arrays s"
    unfolding central_header_st_def Let_def split_beta
    by (simp add: write_simps new_buffer_simps)
qed

lemma extends_end_record_st:
  assumes "extends s0 s"
  shows "extends s0 (fst (end_record_st s n oc cdo))"
proof -
  have h: "length (buffers s0) \<le> snd (new_buffer s 22)"
    using extends_lengths(1) [OF assms] by (simp add: new_buffer_simps)
  show ?thesis
    unfolding end_record_st_def Let_def split_beta
    by (simp add: extends_write extends_new_buffer assms h)
qed

lemma extends_object_update:
  assumes "extends s0 s" and "length (objects s0) \<le> c"
  shows "extends s0 (s\<lparr>objects := (objects s)[c := ob]\<rparr>)"
  using assms by (simp add: extends_def)

lemma extends_local_files_st:
  assumes "extends s0 s" and "list_all (\<lambda>c. length (objects s0) \<le> c) cs"
  shows "extends s0 (fst (local_files_st cs (s, zd, oc)))
    \<and> arrays (fst (local_files_st cs (s, zd, oc))) = arrays s"
  using assms
proof (induction cs arbitrary: s zd oc)
  case Nil
  then show ?case by simp
next
  case (Cons c cs)
  let ?s1 = "fst (local_header_st s c)"
  let ?s2 = "?s1\<lparr>objects := (objects ?s1)[c :=
                (objects ?s1 ! c)\<lparr>o_local_header_offset := Some (Some oc)\<rparr>]\<rparr>"
  from Cons.prems have c: "length (objects s0) \<le> c"
    and cs: "list_all (\<lambda>c. length (objects s0) \<le> c) cs"
    by simp_all
  have "extends s0 ?s1"
    using Cons.prems(1) by (rule extends_local_header_st)
  then have e: "extends s0 ?s2"
    using c by (rule extends_object_update)
  have a: "arrays ?s2 = arrays s"
    using Cons.prems(1) by (simp add: extends_local_header_st)
  from Cons.IH [OF e cs] a show ?case
    by (simp add: Let_def split_beta)
qed

lemma extends_central_directory_st:
  assumes "extends s0 s"
  shows "extends s0 (fst (central_directory_st cs (s, zd, oc)))
    \<and> arrays (fst (central_directory_st cs (s, zd, oc))) = arrays s"
  using assms
proof (induction cs arbitrary: s zd oc)
  case Nil
  then show ?case by simp
next
  case (Cons c cs)
  from Cons.prems have e: "extends s0 (fst (central_header_st s c))"
    by (rule extends_central_header_st)
  have a: "arrays (fst (central_header_st s c)) = arrays s"
    using Cons.prems by (rule extends_central_header_st)
  from Cons.IH [OF e] a show ?case
    by (simp add: Let_def split_beta)
qed

lemma map_complete_st_fresh:
  "extends s0 s \<Longrightarrow>
   extends s0 (fst (map_complete_st s fs))
   \<and> list_all (\<lambda>c. length (objects s0) \<le> c) (snd (map_complete_st s fs))"
proof (induction fs arbitrary: s)
  case Nil
  then show ?case by simp
next
  case (Cons f fs)
  let ?s1 = "fst (complete_st s f)"
  from Cons.prems extends_lengths [OF Cons.prems] have e: "extends s0 ?s1"
    by (simp add: complete_st_def Let_def extends_def)
  from extends_lengths(2) [OF Cons.prems] have "length (objects s0) \<le> snd (complete_st s f)"
    by (simp add: complete_st_def Let_def)
  with Cons.IH [OF e] show ?case
    by (simp add: Let_def split_beta)
qed

section \<open>The store: the same output as the pure model\<close>

lemma store_ops_last:
  "write4B_st (s\<lparr>buffers := bs @ [b]\<rparr>) (length bs) i v = s\<lparr>buffers := bs @ [write4B b i v]\<rparr>"
  "write2B_st (s\<lparr>buffers := bs @ [b]\<rparr>) (length bs) i v = s\<lparr>buffers := bs @ [write2B b i v]\<rparr>"
  "set_byte_st (s\<lparr>buffers := bs @ [b]\<rparr>) (length bs) i x = s\<lparr>buffers := bs @ [b[i := x]]\<rparr>"
  by (simp_all add: write4B_st_def write2B_st_def set_byte_st_def)

lemma local_header_st_eq:
  assumes "c < length (objects s)" and "o_data (objects s ! c) < length (buffers s)"
  shows "local_header_st s c =
           (s\<lparr>buffers := buffers s @ [local_header (entry_of s c)]\<rparr>, length (buffers s))"
  using assms
  by (simp add: local_header_st_def new_buffer_def store_ops_last Let_def local_header_def
      entry_of_def crc_number_def nth_append split: option.split)

lemma central_header_st_eq:
  assumes "c < length (objects s)" and "o_data (objects s ! c) < length (buffers s)"
  shows "central_header_st s c =
           (s\<lparr>buffers := buffers s @ [central_header (entry_of s c)]\<rparr>, length (buffers s))"
  using assms
  by (simp add: central_header_st_def new_buffer_def store_ops_last Let_def central_header_def
      entry_of_def crc_number_def offset_number_def nth_append split: option.split)

lemma end_record_st_eq:
  "end_record_st s n oc cdo =
     (s\<lparr>buffers := buffers s @ [end_of_central_directory n oc cdo]\<rparr>, length (buffers s))"
  by (simp add: end_record_st_def new_buffer_def store_ops_last Let_def
      end_of_central_directory_def)

lemma item_part_extend:
  "ref_ok s it \<Longrightarrow> item_part (s\<lparr>buffers := buffers s @ bs, objects := os\<rparr>) it = item_part s it"
  by (cases it) (simp_all add: nth_append)

lemma ref_ok_extend:
  "ref_ok s it \<Longrightarrow> ref_ok (s\<lparr>buffers := buffers s @ bs, objects := os\<rparr>) it"
  by (cases it) simp_all

lemma map_item_part_extend:
  "list_all (ref_ok s) zd \<Longrightarrow>
   map (item_part (s\<lparr>buffers := buffers s @ bs, objects := os\<rparr>)) zd = map (item_part s) zd"
  by (induction zd) (simp_all add: item_part_extend)

lemma list_all_ref_ok_extend:
  "list_all (ref_ok s) zd \<Longrightarrow> list_all (ref_ok (s\<lparr>buffers := buffers s @ bs, objects := os\<rparr>)) zd"
  by (induction zd) (simp_all add: ref_ok_extend)

lemma entry_of_eq:
  assumes "objects s' ! c = objects s ! c"
    and "buffers s' ! o_data (objects s ! c) = buffers s ! o_data (objects s ! c)"
  shows "entry_of s' c = entry_of s c"
  using assms by (simp add: entry_of_def Let_def)

lemma local_files_st_step:
  assumes "c < length (objects s)" and "o_data (objects s ! c) < length (buffers s)"
  shows "local_files_st (c # cs) (s, zd, oc) =
     local_files_st cs
       (s\<lparr>buffers := buffers s @ [local_header (entry_of s c)],
          objects := (objects s)[c :=
            (objects s ! c)\<lparr>o_local_header_offset := Some (Some oc)\<rparr>]\<rparr>,
        zd @ [BufferRef (length (buffers s)), StringItem (o_name (objects s ! c)),
              BufferRef (o_data (objects s ! c))],
        oc + local_size (entry_of s c))"
  using assms
  by (simp add: local_header_st_eq length_local_header nth_append local_size_def entry_of_def
      Let_def add.assoc)

lemma central_directory_st_step:
  assumes "c < length (objects s)" and "o_data (objects s ! c) < length (buffers s)"
  shows "central_directory_st (c # cs) (s, zd, oc) =
     central_directory_st cs
       (s\<lparr>buffers := buffers s @ [central_header (entry_of s c)], objects := objects s\<rparr>,
        zd @ [BufferRef (length (buffers s)), StringItem (o_name (objects s ! c))],
        oc + central_size (entry_of s c))"
  using assms
  by (simp add: central_header_st_eq length_central_header nth_append central_size_def
      entry_of_def Let_def add.assoc)

lemma local_files_fst_zip_data:
  "fst (local_files fcs st) = fst (local_files fcs \<lparr>zip_data = [], offset_count = offset_count st\<rparr>)"
  by (rule nth_equalityI) (simp_all add: local_files_length local_files_nth)

lemma local_files_fst_Cons:
  "fst (local_files (fc # fcs) \<lparr>zip_data = [], offset_count = oc\<rparr>) =
     fc\<lparr>local_header_offset := Some oc\<rparr>
       # fst (local_files fcs \<lparr>zip_data = [], offset_count = oc + local_size fc\<rparr>)"
proof -
  let ?st = "\<lparr>zip_data = [BufferPart (local_header fc), StringPart (name fc), BufferPart (data fc)],
            offset_count = oc + local_size fc\<rparr>"
  have "fst (local_files (fc # fcs) \<lparr>zip_data = [], offset_count = oc\<rparr>) =
     fc\<lparr>local_header_offset := Some oc\<rparr> # fst (local_files fcs ?st)"
    by (simp add: Let_def split_beta local_size_def length_local_header add.assoc)
  also have "fst (local_files fcs ?st)
      = fst (local_files fcs \<lparr>zip_data = [], offset_count = offset_count ?st\<rparr>)"
    by (rule local_files_fst_zip_data)
  finally show ?thesis
    by simp
qed

lemma objs_ok_Cons:
  "objs_ok s (c # cs) =
     (c < length (objects s) \<and> o_data (objects s ! c) < length (buffers s) \<and> objs_ok s cs)"
  by (simp add: objs_ok_def)

lemma objs_ok_nth:
  "objs_ok s cs \<Longrightarrow> c \<in> set cs \<Longrightarrow>
   c < length (objects s) \<and> o_data (objects s ! c) < length (buffers s)"
  by (simp add: objs_ok_def list_all_iff)

lemma central_directory_st_sim:
  assumes "objs_ok s cs" and "list_all (ref_ok s) zd"
  shows "map (item_part (fst (central_directory_st cs (s, zd, oc))))
             (fst (snd (central_directory_st cs (s, zd, oc))))
           = map (item_part s) zd @ concat (map central_parts (map (entry_of s) cs))
    \<and> snd (snd (central_directory_st cs (s, zd, oc)))
           = oc + sum_list (map central_size (map (entry_of s) cs))
    \<and> list_all (ref_ok (fst (central_directory_st cs (s, zd, oc))))
           (fst (snd (central_directory_st cs (s, zd, oc))))"
  using assms
proof (induction cs arbitrary: s zd oc)
  case Nil
  then show ?case by simp
next
  case (Cons c cs)
  from Cons.prems(1) have c: "c < length (objects s)" "o_data (objects s ! c) < length (buffers s)"
    and cs: "objs_ok s cs"
    by (simp_all add: objs_ok_Cons)
  let ?s1 = "s\<lparr>buffers := buffers s @ [central_header (entry_of s c)], objects := objects s\<rparr>"
  let ?zd1 = "zd @ [BufferRef (length (buffers s)), StringItem (o_name (objects s ! c))]"
  let ?oc1 = "oc + central_size (entry_of s c)"
  have step: "central_directory_st (c # cs) (s, zd, oc) = central_directory_st cs (?s1, ?zd1, ?oc1)"
    using c by (rule central_directory_st_step)
  have ok1: "objs_ok ?s1 cs"
    using cs by (auto simp add: objs_ok_def list_all_iff less_Suc_eq)
  have refs1: "list_all (ref_ok ?s1) ?zd1"
    using list_all_ref_ok_extend [OF Cons.prems(2), where bs = "[central_header (entry_of s c)]"
        and os = "objects s"]
    by simp
  have ent: "map (entry_of ?s1) cs = map (entry_of s) cs"
  proof (rule map_cong [OF refl])
    fix x assume "x \<in> set cs"
    with cs have "o_data (objects s ! x) < length (buffers s)"
      by (simp add: objs_ok_nth)
    then show "entry_of ?s1 x = entry_of s x"
      by (intro entry_of_eq) (simp_all add: nth_append)
  qed
  have items: "map (item_part ?s1) ?zd1 = map (item_part s) zd @ central_parts (entry_of s c)"
    using map_item_part_extend [OF Cons.prems(2), where bs = "[central_header (entry_of s c)]"
        and os = "objects s"]
    by (simp add: central_parts_def entry_of_def Let_def)
  from Cons.IH [OF ok1 refs1, of ?oc1] show ?case
    unfolding step ent items by simp
qed

lemma take_take_prefix:
  assumes "take (Suc n) xs = ys @ [y]" and "length ys = n"
  shows "take n xs = ys"
proof -
  have "take n xs = take n (take (Suc n) xs)"
    by simp
  with assms show ?thesis
    by simp
qed

lemma nth_of_take: "take n xs = ys \<Longrightarrow> i < length ys \<Longrightarrow> xs ! i = ys ! i"
  by (metis length_take min_less_iff_conj nth_take)

lemma local_files_st_sim:
  assumes "distinct cs" and "objs_ok s cs" and "list_all (ref_ok s) zd"
  shows "map (item_part (fst (local_files_st cs (s, zd, oc))))
             (fst (snd (local_files_st cs (s, zd, oc))))
           = map (item_part s) zd @ concat (map local_parts (map (entry_of s) cs))
    \<and> snd (snd (local_files_st cs (s, zd, oc)))
           = oc + sum_list (map local_size (map (entry_of s) cs))
    \<and> map (entry_of (fst (local_files_st cs (s, zd, oc)))) cs
           = fst (local_files (map (entry_of s) cs) \<lparr>zip_data = [], offset_count = oc\<rparr>)
    \<and> list_all (ref_ok (fst (local_files_st cs (s, zd, oc))))
           (fst (snd (local_files_st cs (s, zd, oc))))
    \<and> objs_ok (fst (local_files_st cs (s, zd, oc))) cs
    \<and> take (length (buffers s)) (buffers (fst (local_files_st cs (s, zd, oc)))) = buffers s
    \<and> length (objects (fst (local_files_st cs (s, zd, oc)))) = length (objects s)
    \<and> (\<forall>a. a \<notin> set cs \<longrightarrow> objects (fst (local_files_st cs (s, zd, oc))) ! a = objects s ! a)"
  using assms
proof (induction cs arbitrary: s zd oc)
  case Nil
  then show ?case by (simp add: objs_ok_def)
next
  case (Cons c cs)
  from Cons.prems(1) have notin: "c \<notin> set cs" and dist: "distinct cs"
    by simp_all
  from Cons.prems(2) have c: "c < length (objects s)" "o_data (objects s ! c) < length (buffers s)"
    and cs: "objs_ok s cs"
    by (simp_all add: objs_ok_Cons)
  let ?H = "local_header (entry_of s c)"
  let ?ob = "(objects s ! c)\<lparr>o_local_header_offset := Some (Some oc)\<rparr>"
  let ?s1 = "s\<lparr>buffers := buffers s @ [?H], objects := (objects s)[c := ?ob]\<rparr>"
  let ?zd1 = "zd @ [BufferRef (length (buffers s)), StringItem (o_name (objects s ! c)),
              BufferRef (o_data (objects s ! c))]"
  let ?oc1 = "oc + local_size (entry_of s c)"
  let ?r = "local_files_st cs (?s1, ?zd1, ?oc1)"
  have step: "local_files_st (c # cs) (s, zd, oc) = ?r"
    using c by (rule local_files_st_step)
  have ok1: "objs_ok ?s1 cs"
    unfolding objs_ok_def list_all_iff
  proof
    fix x assume x: "x \<in> set cs"
    with notin have "x \<noteq> c" by auto
    with objs_ok_nth [OF cs x]
    show "x < length (objects ?s1) \<and> o_data (objects ?s1 ! x) < length (buffers ?s1)"
      by simp
  qed
  have refs1: "list_all (ref_ok ?s1) ?zd1"
    using list_all_ref_ok_extend [OF Cons.prems(3), where bs = "[?H]"
        and os = "(objects s)[c := ?ob]"] c(2)
    by simp
  have ent: "map (entry_of ?s1) cs = map (entry_of s) cs"
  proof (rule map_cong [OF refl])
    fix x assume x: "x \<in> set cs"
    with notin have "x \<noteq> c" by auto
    with objs_ok_nth [OF cs x] show "entry_of ?s1 x = entry_of s x"
      by (intro entry_of_eq) (simp_all add: nth_append)
  qed
  have items: "map (item_part ?s1) ?zd1 = map (item_part s) zd @ local_parts (entry_of s c)"
    using map_item_part_extend [OF Cons.prems(3), where bs = "[?H]"
        and os = "(objects s)[c := ?ob]"] c(2)
    by (simp add: local_parts_def entry_of_def Let_def nth_append)
  note IH = Cons.IH [OF dist ok1 refs1, of ?oc1]
  note i1 = IH [THEN conjunct1]
  note i2 = IH [THEN conjunct2, THEN conjunct1]
  note i3 = IH [THEN conjunct2, THEN conjunct2, THEN conjunct1]
  note i4 = IH [THEN conjunct2, THEN conjunct2, THEN conjunct2, THEN conjunct1]
  note i5 = IH [THEN conjunct2, THEN conjunct2, THEN conjunct2, THEN conjunct2, THEN conjunct1]
  note i6 = IH [THEN conjunct2, THEN conjunct2, THEN conjunct2, THEN conjunct2, THEN conjunct2,
      THEN conjunct1]
  note i7 = IH [THEN conjunct2, THEN conjunct2, THEN conjunct2, THEN conjunct2, THEN conjunct2,
      THEN conjunct2, THEN conjunct1]
  note i8 = IH [THEN conjunct2, THEN conjunct2, THEN conjunct2, THEN conjunct2, THEN conjunct2,
      THEN conjunct2, THEN conjunct2]
  from i6 have "take (Suc (length (buffers s))) (buffers (fst ?r)) = buffers s @ [?H]"
    by simp
  then have pre: "take (length (buffers s)) (buffers (fst ?r)) = buffers s"
    by (rule take_take_prefix) simp
  from i8 notin c(1) have obc: "objects (fst ?r) ! c = ?ob"
    by simp
  have bufd: "buffers (fst ?r) ! o_data (objects s ! c) = buffers s ! o_data (objects s ! c)"
    using nth_of_take [OF pre c(2)] .
  have entc: "entry_of (fst ?r) c = (entry_of s c)\<lparr>local_header_offset := Some oc\<rparr>"
    using obc bufd by (simp add: entry_of_def Let_def)
  have lenb: "length (buffers s) \<le> length (buffers (fst ?r))"
    using pre by (metis take_eq_length)
  have okc: "objs_ok (fst ?r) (c # cs)"
    using i5 i7 c obc lenb by (simp add: objs_ok_Cons)
  have fr: "\<forall>a. a \<notin> set (c # cs) \<longrightarrow> objects (fst ?r) ! a = objects s ! a"
    using i8 by simp
  show ?case
    unfolding step
  proof (intro conjI)
    show "map (item_part (fst ?r)) (fst (snd ?r))
        = map (item_part s) zd @ concat (map local_parts (map (entry_of s) (c # cs)))"
      unfolding i1 ent items by simp
    show "snd (snd ?r) = oc + sum_list (map local_size (map (entry_of s) (c # cs)))"
      unfolding i2 ent by simp
    show "map (entry_of (fst ?r)) (c # cs)
        = fst (local_files (map (entry_of s) (c # cs)) \<lparr>zip_data = [], offset_count = oc\<rparr>)"
      using i3 entc unfolding ent by (simp only: list.map local_files_fst_Cons)
    show "list_all (ref_ok (fst ?r)) (fst (snd ?r))"
      by (rule i4)
    show "objs_ok (fst ?r) (c # cs)"
      by (rule okc)
    show "take (length (buffers s)) (buffers (fst ?r)) = buffers s"
      by (rule pre)
    show "length (objects (fst ?r)) = length (objects s)"
      using i7 by simp
    show "\<forall>a. a \<notin> set (c # cs) \<longrightarrow> objects (fst ?r) ! a = objects s ! a"
      by (rule fr)
  qed
qed

lemma map_complete_st_buffers:
  "buffers (fst (map_complete_st s fs)) = buffers s \<and> arrays (fst (map_complete_st s fs)) = arrays s
   \<and> length (snd (map_complete_st s fs)) = length fs"
  by (induction fs arbitrary: s) (simp_all add: Let_def split_beta complete_st_def)

lemma map_complete_st_entries:
  assumes "objs_ok s fs"
  shows "distinct (snd (map_complete_st s fs))
    \<and> objs_ok (fst (map_complete_st s fs)) (snd (map_complete_st s fs))
    \<and> map (entry_of (fst (map_complete_st s fs))) (snd (map_complete_st s fs))
        = map complete
            (map (\<lambda>f. \<lparr>name = o_name (objects s ! f), data = buffers s ! o_data (objects s ! f)\<rparr>) fs)"
  using assms
proof (induction fs arbitrary: s)
  case Nil
  then show ?case by (simp add: objs_ok_def)
next
  case (Cons f fs)
  from Cons.prems have f: "f < length (objects s)" "o_data (objects s ! f) < length (buffers s)"
    and fs: "objs_ok s fs"
    by (simp_all add: objs_ok_Cons)
  let ?new = "\<lparr>o_name = o_name (objects s ! f), o_data = o_data (objects s ! f),
              o_crc = Some (calcCRC32 (buffers s ! o_data (objects s ! f))),
              o_is_dir = Some (char_at (o_name (objects s ! f))
                                (int (length (o_name (objects s ! f))) - 1) = Some 0x2F),
              o_local_header_offset = Some None\<rparr>"
  let ?s1 = "s\<lparr>objects := objects s @ [?new]\<rparr>"
  let ?c = "length (objects s)"
  let ?r = "map_complete_st ?s1 fs"
  have step: "map_complete_st s (f # fs) = (fst ?r, ?c # snd ?r)"
    by (simp add: Let_def split_beta complete_st_def)
  have ok1: "objs_ok ?s1 fs"
    unfolding objs_ok_def list_all_iff
  proof
    fix x assume "x \<in> set fs"
    from objs_ok_nth [OF fs this]
    show "x < length (objects ?s1) \<and> o_data (objects ?s1 ! x) < length (buffers ?s1)"
      by (simp add: nth_append)
  qed
  note IH = Cons.IH [OF ok1]
  note d = IH [THEN conjunct1]
  note ok = IH [THEN conjunct2, THEN conjunct1]
  note ents = IH [THEN conjunct2, THEN conjunct2]
  from map_complete_st_fresh [OF extends_refl, of ?s1 fs]
  have ext: "extends ?s1 (fst ?r)" and fresh: "list_all (\<lambda>x. length (objects ?s1) \<le> x) (snd ?r)"
    by simp_all
  from fresh have notin: "?c \<notin> set (snd ?r)"
    by (auto simp add: list_all_iff)
  from ext have t: "take (Suc ?c) (objects (fst ?r)) = objects s @ [?new]"
    by (simp add: extends_def)
  have obc: "objects (fst ?r) ! ?c = ?new"
    using nth_of_take [OF t, of ?c] by simp
  have lenc: "?c < length (objects (fst ?r))"
    using extends_lengths(2) [OF ext] by simp
  have bufs: "buffers (fst ?r) = buffers s"
    using map_complete_st_buffers [of ?s1 fs] by simp
  have entc: "entry_of (fst ?r) ?c
      = complete \<lparr>name = o_name (objects s ! f), data = buffers s ! o_data (objects s ! f)\<rparr>"
    using obc bufs by (simp add: entry_of_def complete_def Let_def)
  have same: "map (\<lambda>f. \<lparr>name = o_name (objects ?s1 ! f),
                      data = buffers ?s1 ! o_data (objects ?s1 ! f)\<rparr>) fs
      = map (\<lambda>f. \<lparr>name = o_name (objects s ! f), data = buffers s ! o_data (objects s ! f)\<rparr>) fs"
  proof (rule map_cong [OF refl])
    fix x assume "x \<in> set fs"
    from objs_ok_nth [OF fs this]
    show "\<lparr>name = o_name (objects ?s1 ! x), data = buffers ?s1 ! o_data (objects ?s1 ! x)\<rparr>
        = \<lparr>name = o_name (objects s ! x), data = buffers s ! o_data (objects s ! x)\<rparr>"
      by (simp add: nth_append)
  qed
  show ?case
    unfolding step fst_conv snd_conv
  proof (intro conjI)
    show "distinct (?c # snd ?r)"
      using d notin by simp
    show "objs_ok (fst ?r) (?c # snd ?r)"
      using ok lenc obc f(2) bufs by (simp add: objs_ok_Cons)
    show "map (entry_of (fst ?r)) (?c # snd ?r)
        = map complete (map (\<lambda>f. \<lparr>name = o_name (objects s ! f),
                                  data = buffers s ! o_data (objects s ! f)\<rparr>) (f # fs))"
      using ents entc unfolding same by simp
  qed
qed


lemma arrays_update_simps:
  "entry_of (s\<lparr>arrays := x\<rparr>) = entry_of s"
  "objs_ok (s\<lparr>arrays := x\<rparr>) cs = objs_ok s cs"
  by (simp_all add: entry_of_def objs_ok_def fun_eq_iff)

lemma local_files_st_arrays: "arrays (fst (local_files_st cs (s, zd, oc))) = arrays s"
proof (induction cs arbitrary: s zd oc)
  case Nil
  show ?case by simp
next
  case (Cons c cs)
  have "arrays (fst (local_header_st s c)) = arrays s"
    using extends_refl by (rule extends_local_header_st)
  then show ?case
    by (simp add: Let_def split_beta Cons.IH)
qed

lemma well_formed_objs_ok: "well_formed s files \<Longrightarrow> objs_ok s (arrays s ! files)"
  by (simp add: well_formed_def objs_ok_def)

text \<open>
  On a store without dangling references, the blob of the store model has the bytes that
  the pure model computes from the caller's list.
\<close>

theorem createZIP_st_output:
  assumes "well_formed s files"
  shows "snd (createZIP_st s files) = createZIP (files_of s files)"
proof -
  let ?F = "files_of s files"
  obtain s1 cs where m: "map_complete_st s (arrays s ! files) = (s1, cs)"
    by fastforce
  define s2 where "s2 = s1\<lparr>arrays := arrays s1 @ [cs]\<rparr>"
  obtain s3 zd3 oc3 where l: "local_files_st cs (s2, [], 0) = (s3, zd3, oc3)"
    by (metis prod_cases3)
  obtain s4 zd4 oc4 where c: "central_directory_st cs (s3, zd3, oc3) = (s4, zd4, oc4)"
    by (metis prod_cases3)
  let ?E = "end_of_central_directory (length cs) oc4 oc3"
  have r: "end_record_st s4 (length cs) oc4 oc3
      = (s4\<lparr>buffers := buffers s4 @ [?E], objects := objects s4\<rparr>, length (buffers s4))"
    by (simp add: end_record_st_eq)
  from map_complete_st_entries [OF well_formed_objs_ok [OF assms]] m
  have dist: "distinct cs" and ok1: "objs_ok s1 cs"
    and ent1: "map (entry_of s1) cs = map complete ?F"
    by (simp_all add: files_of_def)
  from map_complete_st_buffers [of s "arrays s ! files"] m
  have len: "length cs = length ?F"
    by (simp add: files_of_def)
  have ok2: "objs_ok s2 cs" and ent2: "map (entry_of s2) cs = map complete ?F"
    using ok1 ent1 by (simp_all add: s2_def arrays_update_simps)
  have cs: "arrays s2 ! length (arrays s1) = cs"
    by (simp add: s2_def)
  note sim1 = local_files_st_sim [OF dist ok2, of "[]" 0, unfolded l fst_conv snd_conv ent2]
  have items3: "map (item_part s3) zd3 = concat (map local_parts (map complete ?F))"
    using sim1 [THEN conjunct1] by simp
  have oc3: "oc3 = sum_list (map local_size (map complete ?F))"
    using sim1 [THEN conjunct2, THEN conjunct1] by simp
  have ent3: "map (entry_of s3) cs = entries ?F"
    using sim1 [THEN conjunct2, THEN conjunct2, THEN conjunct1]
    by (simp add: entries_def phase1_def)
  have refs3: "list_all (ref_ok s3) zd3"
    using sim1 [THEN conjunct2, THEN conjunct2, THEN conjunct2, THEN conjunct1] by simp
  have ok3: "objs_ok s3 cs"
    using sim1 [THEN conjunct2, THEN conjunct2, THEN conjunct2, THEN conjunct2, THEN conjunct1]
    by simp
  from local_files_st_arrays [of cs s2 "[]" 0] l
  have a3: "arrays s3 = arrays s2"
    by simp
  note sim2 = central_directory_st_sim [OF ok3 refs3, of oc3, unfolded c fst_conv snd_conv ent3]
  have items4: "map (item_part s4) zd4
      = concat (map local_parts (map complete ?F)) @ concat (map central_parts (entries ?F))"
    using sim2 [THEN conjunct1] items3 by simp
  have oc4: "oc4 = oc3 + sum_list (map central_size (entries ?F))"
    using sim2 [THEN conjunct2, THEN conjunct1] by simp
  have refs4: "list_all (ref_ok s4) zd4"
    using sim2 [THEN conjunct2, THEN conjunct2] by simp
  from extends_central_directory_st [of s3 s3 cs zd3 oc3] c
  have a4: "arrays s4 = arrays s2"
    by (simp add: extends_refl a3)
  have out: "snd (createZIP_st s files)
      = Blob_st (s4\<lparr>buffers := buffers s4 @ [?E], objects := objects s4\<rparr>)
          (zd4 @ [BufferRef (length (buffers s4))])"
    unfolding createZIP_st_def
    by (simp add: Let_def m s2_def [symmetric] cs l a3 c a4 r)
  have m4: "map (item_part (s4\<lparr>buffers := buffers s4 @ [?E], objects := objects s4\<rparr>)) zd4
      = map (item_part s4) zd4"
    by (rule map_item_part_extend [OF refs4])
  have "Blob_st (s4\<lparr>buffers := buffers s4 @ [?E], objects := objects s4\<rparr>)
          (zd4 @ [BufferRef (length (buffers s4))])
      = Blob (map (item_part s4) zd4 @ [BufferPart ?E])"
    unfolding Blob_st_def map_append m4 by simp
  also have "\<dots> = createZIP ?F"
    by (simp add: createZIP_def createZIP_zip_data_eq items4 oc4 oc3 len)
  finally show ?thesis
    using out by simp
qed

lemma take_nth_same:
  assumes "take (length xs) ys = xs" and "i < length xs"
  shows "ys ! i = xs ! i"
  using nth_of_take [OF assms] .

lemma files_of_extends:
  assumes "extends s s'" and "well_formed s files"
  shows "files_of s' files = files_of s files"
proof -
  from assms have b: "take (length (buffers s)) (buffers s') = buffers s"
    and ob: "take (length (objects s)) (objects s') = objects s"
    and ar: "take (length (arrays s)) (arrays s') = arrays s"
    by (simp_all add: extends_def)
  from assms(2) have f: "files < length (arrays s)"
    by (simp add: well_formed_def)
  have arr: "arrays s' ! files = arrays s ! files"
    using take_nth_same [OF ar f] .
  have "map (\<lambda>f. \<lparr>name = o_name (objects s' ! f), data = buffers s' ! o_data (objects s' ! f)\<rparr>)
          (arrays s ! files)
      = map (\<lambda>f. \<lparr>name = o_name (objects s ! f), data = buffers s ! o_data (objects s ! f)\<rparr>)
          (arrays s ! files)"
  proof (rule map_cong [OF refl])
    fix x assume "x \<in> set (arrays s ! files)"
    from objs_ok_nth [OF well_formed_objs_ok [OF assms(2)] this]
    have x: "x < length (objects s)" and d: "o_data (objects s ! x) < length (buffers s)"
      by simp_all
    have "objects s' ! x = objects s ! x"
      using take_nth_same [OF ob x] .
    moreover have "buffers s' ! o_data (objects s ! x) = buffers s ! o_data (objects s ! x)"
      using take_nth_same [OF b d] .
    ultimately
    show "\<lparr>name = o_name (objects s' ! x), data = buffers s' ! o_data (objects s' ! x)\<rparr>
        = \<lparr>name = o_name (objects s ! x), data = buffers s ! o_data (objects s ! x)\<rparr>"
      by simp
  qed
  then show ?thesis
    by (simp add: files_of_def arr)
qed

lemma createZIP_st_extends: "extends s (fst (createZIP_st s files))"
proof -
  obtain s1 cs where m: "map_complete_st s (arrays s ! files) = (s1, cs)"
    by fastforce
  define s2 where "s2 = s1\<lparr>arrays := arrays s1 @ [cs]\<rparr>"
  obtain s3 zd3 oc3 where l: "local_files_st cs (s2, [], 0) = (s3, zd3, oc3)"
    by (metis prod_cases3)
  obtain s4 zd4 oc4 where c: "central_directory_st cs (s3, zd3, oc3) = (s4, zd4, oc4)"
    by (metis prod_cases3)
  obtain s5 er where r: "end_record_st s4 (length cs) oc4 oc3 = (s5, er)"
    by fastforce
  from map_complete_st_fresh [OF extends_refl, of s "arrays s ! files"] m
  have e1: "extends s s1" and fresh: "list_all (\<lambda>c. length (objects s) \<le> c) cs"
    by simp_all
  have e2: "extends s s2"
    using e1 extends_lengths [OF e1] by (simp add: extends_def s2_def)
  have cs: "arrays s2 ! length (arrays s1) = cs"
    by (simp add: s2_def)
  from extends_local_files_st [OF e2 fresh, of "[]" 0] l
  have e3: "extends s s3" and a3: "arrays s3 = arrays s2"
    by simp_all
  from extends_central_directory_st [OF e3, of cs zd3 oc3] c
  have e4: "extends s s4" and a4: "arrays s4 = arrays s2"
    by (simp_all add: a3)
  from extends_end_record_st [OF e4, of "length cs" oc4 oc3] r
  have e5: "extends s s5"
    by simp
  have "fst (createZIP_st s files) = s5"
    unfolding createZIP_st_def
    by (simp add: Let_def m s2_def [symmetric] cs l a3 c a4 r)
  with e5 show ?thesis
    by simp
qed

lemma createZIP_st_files_complete:
  "list_all (\<lambda>c. length (objects s) \<le> c) (arrays (fst (createZIP_st s files)) ! length (arrays s))"
proof -
  obtain s1 cs where m: "map_complete_st s (arrays s ! files) = (s1, cs)"
    by fastforce
  define s2 where "s2 = s1\<lparr>arrays := arrays s1 @ [cs]\<rparr>"
  obtain s3 zd3 oc3 where l: "local_files_st cs (s2, [], 0) = (s3, zd3, oc3)"
    by (metis prod_cases3)
  obtain s4 zd4 oc4 where c: "central_directory_st cs (s3, zd3, oc3) = (s4, zd4, oc4)"
    by (metis prod_cases3)
  from map_complete_st_fresh [OF extends_refl, of s "arrays s ! files"] m
  have fresh: "list_all (\<lambda>c. length (objects s) \<le> c) cs"
    by simp
  from map_complete_st_buffers [of s "arrays s ! files"] m
  have a1: "arrays s1 = arrays s"
    by simp
  have cs: "arrays s2 ! length (arrays s1) = cs"
    by (simp add: s2_def)
  from local_files_st_arrays [of cs s2 "[]" 0] l
  have a3: "arrays s3 = arrays s2"
    by simp
  from extends_central_directory_st [of s3 s3 cs zd3 oc3] c
  have a4: "arrays s4 = arrays s2"
    by (simp add: extends_refl a3)
  have "arrays (fst (createZIP_st s files)) = arrays s2"
    unfolding createZIP_st_def
    by (simp add: Let_def m s2_def [symmetric] cs l a3 c a4 end_record_st_eq)
  with fresh cs a1 show ?thesis
    by simp
qed

text \<open>
  C9: when \<open>createZIP\<close> returns, every cell that the store had at the call is unchanged:
  the caller's array, the caller's objects with their \<open>name\<close> and \<open>data\<close>, and the
  buffers; so the caller's list reads as before. The elements of \<open>files_complete\<close>, the
  objects over which the first loop runs and to which it assigns \<open>local_header_offset\<close>,
  are objects allocated during the call.
\<close>

theorem createZIP_st_callers_objects_unchanged:
  assumes "well_formed s files"
  shows "take (length (arrays s)) (arrays (fst (createZIP_st s files))) = arrays s
    \<and> take (length (objects s)) (objects (fst (createZIP_st s files))) = objects s
    \<and> take (length (buffers s)) (buffers (fst (createZIP_st s files))) = buffers s
    \<and> files_of (fst (createZIP_st s files)) files = files_of s files
    \<and> list_all (\<lambda>c. length (objects s) \<le> c)
         (arrays (fst (createZIP_st s files)) ! length (arrays s))"
  using createZIP_st_extends [of s files] files_of_extends [OF createZIP_st_extends assms]
    createZIP_st_files_complete [of s files]
  by (simp add: extends_def)

theorem createZIP_st_callers_objects_unchanged_witness:
  "well_formed
     \<lparr>buffers = [[1, 2], []],
      objects = [\<lparr>o_name = [0x61], o_data = 0, o_crc = None, o_is_dir = None,
                  o_local_header_offset = None\<rparr>,
                 \<lparr>o_name = [0x64, 0x2F], o_data = 1, o_crc = None, o_is_dir = None,
                  o_local_header_offset = None\<rparr>],
      arrays = [[0, 1]]\<rparr> 0
   \<and> files_of (fst (createZIP_st
         \<lparr>buffers = [[1, 2], []],
          objects = [\<lparr>o_name = [0x61], o_data = 0, o_crc = None, o_is_dir = None,
                      o_local_header_offset = None\<rparr>,
                     \<lparr>o_name = [0x64, 0x2F], o_data = 1, o_crc = None, o_is_dir = None,
                      o_local_header_offset = None\<rparr>],
          arrays = [[0, 1]]\<rparr> 0)) 0
       = files_of
         \<lparr>buffers = [[1, 2], []],
          objects = [\<lparr>o_name = [0x61], o_data = 0, o_crc = None, o_is_dir = None,
                      o_local_header_offset = None\<rparr>,
                     \<lparr>o_name = [0x64, 0x2F], o_data = 1, o_crc = None, o_is_dir = None,
                      o_local_header_offset = None\<rparr>],
          arrays = [[0, 1]]\<rparr> 0"
proof -
  let ?s = "\<lparr>buffers = [[1, 2], []],
      objects = [\<lparr>o_name = [0x61], o_data = 0, o_crc = None, o_is_dir = None,
                  o_local_header_offset = None\<rparr>,
                 \<lparr>o_name = [0x64, 0x2F], o_data = 1, o_crc = None, o_is_dir = None,
                  o_local_header_offset = None\<rparr>],
      arrays = [[0, 1]]\<rparr>"
  have wf: "well_formed ?s 0"
    by (simp add: well_formed_def)
  from createZIP_st_callers_objects_unchanged [OF wf] wf show ?thesis
    by blast
qed

section \<open>Names of code units below \<open>0x80\<close>\<close>

lemma length_Blob_local_parts_ascii:
  "ascii (name fc) \<Longrightarrow> length (Blob (local_parts fc)) = local_size fc"
  by (simp add: Blob_local_parts length_local_header local_size_def length_utf8_encode_ascii)

text \<open>
  When every name consists of code units below \<open>0x80\<close>, the local header of every
  entry begins at the offset recorded for it.
\<close>

lemma local_header_at_recorded_offset:
  assumes "ascii_names files" and "i < length files"
  shows "take 30 (drop (offset_value (entries files ! i)) (createZIP files))
       = local_header (entries files ! i)"
proof -
  let ?xs = "map complete files"
  let ?g = "\<lambda>fc. Blob (local_parts fc)"
  from assms(2) have i: "i < length ?xs"
    by simp
  have split: "?xs = take i ?xs @ ?xs ! i # drop (Suc i) ?xs"
    using i by (rule id_take_nth_drop)
  have m: "map (\<lambda>fc. length (?g fc)) (take i ?xs) = map local_size (take i ?xs)"
  proof (rule map_cong [OF refl])
    fix fc assume "fc \<in> set (take i ?xs)"
    then have "fc \<in> set ?xs"
      by (rule in_set_takeD)
    then obtain f where "f \<in> set files" and "fc = complete f"
      by auto
    with assms(1) have "ascii (name fc)"
      by (simp add: ascii_names_def list_all_iff complete_def)
    then show "length (?g fc) = local_size fc"
      by (rule length_Blob_local_parts_ascii)
  qed
  have len: "length (concat (map ?g (take i ?xs))) = offset_value (entries files ! i)"
    unfolding length_concat_sum m using assms(2) by (simp add: offset_value_entries)
  have "phase1_bytes files = concat (map ?g ?xs)"
    by (simp only: phase1_bytes_eq Blob_concat_map)
  also have "\<dots> = concat (map ?g (take i ?xs)) @ ?g (?xs ! i) @ concat (map ?g (drop (Suc i) ?xs))"
    by (subst split) simp
  finally have "createZIP files
      = concat (map ?g (take i ?xs))
          @ local_header (?xs ! i)
          @ (utf8_encode (name (?xs ! i)) @ data (?xs ! i)
             @ concat (map ?g (drop (Suc i) ?xs))
             @ phase2_bytes files @ end_record_bytes files)"
    by (simp add: createZIP_eq end_record_bytes_eq Blob_local_parts)
  then have "drop (offset_value (entries files ! i)) (createZIP files)
      = local_header (?xs ! i)
          @ (utf8_encode (name (?xs ! i)) @ data (?xs ! i)
             @ concat (map ?g (drop (Suc i) ?xs))
             @ phase2_bytes files @ end_record_bytes files)"
    using len by (metis append_eq_conv_conj)
  then show ?thesis
    using assms(2) by (simp add: length_local_header entries_nth)
qed


section \<open>No validation\<close>

lemma list_all_entries:
  assumes "\<And>fc. P fc"
  shows "list_all P (entries files)"
  by (simp add: list_all_iff assms)

lemma size_fields:
  "if is_dir fc
   then u32_at (local_header fc) 18 = 0 \<and> u32_at (local_header fc) 22 = 0
      \<and> u32_at (central_header fc) 20 = 0 \<and> u32_at (central_header fc) 24 = 0
   else u32_at (local_header fc) 18 = length (data fc) mod 2 ^ 32
      \<and> u32_at (local_header fc) 22 = length (data fc) mod 2 ^ 32
      \<and> u32_at (central_header fc) 20 = length (data fc) mod 2 ^ 32
      \<and> u32_at (central_header fc) 24 = length (data fc) mod 2 ^ 32"
  by (cases "is_dir fc")
    (simp_all add: local_header_dir_fields central_header_dir_fields
      local_header_file_fields central_header_file_fields)

lemma ascii_entries_nth:
  assumes "ascii_names files" and "i < length files"
  shows "length (utf8_encode (name (entries files ! i))) = length (name (entries files ! i))"
  using assms by (simp add: entries_fields length_utf8_encode_ascii ascii_names_nth)

lemma ascii_entry_fields:
  assumes "ascii_names files"
  shows "list_all (\<lambda>e.
           u16_at (local_header e) 26 = length (utf8_encode (name e)) mod 2 ^ 16
           \<and> u16_at (central_header e) 28 = length (utf8_encode (name e)) mod 2 ^ 16
           \<and> take 30 (drop (offset_value e) (createZIP files)) = local_header e
           \<and> u32_at (central_header e) 42 = offset_value e mod 2 ^ 32)
         (entries files)"
  unfolding list_all_length
proof (intro allI impI)
  fix i
  assume "i < length (entries files)"
  then have i: "i < length files"
    by (simp add: length_entries)
  let ?e = "entries files ! i"
  have n: "length (utf8_encode (name ?e)) = length (name ?e)"
    using assms i by (rule ascii_entries_nth)
  show "u16_at (local_header ?e) 26 = length (utf8_encode (name ?e)) mod 2 ^ 16
      \<and> u16_at (central_header ?e) 28 = length (utf8_encode (name ?e)) mod 2 ^ 16
      \<and> take 30 (drop (offset_value ?e) (createZIP files)) = local_header ?e
      \<and> u32_at (central_header ?e) 42 = offset_value ?e mod 2 ^ 32"
    unfolding n
    by (intro conjI local_header_name_length central_header_name_length
        local_header_at_recorded_offset [OF assms i] central_header_offset)
qed

lemma ascii_end_record_fields:
  assumes "ascii_names files"
  shows "u32_at (end_record_bytes files) 12 = length (phase2_bytes files) mod 2 ^ 32"
    and "u32_at (end_record_bytes files) 16 = length (phase1_bytes files) mod 2 ^ 32"
proof -
  show "u32_at (end_record_bytes files) 12 = length (phase2_bytes files) mod 2 ^ 32"
    by (simp only: end_record_bytes_eq u32_at_end_record length_phase2_bytes_ascii [OF assms])
      simp
  show "u32_at (end_record_bytes files) 16 = length (phase1_bytes files) mod 2 ^ 32"
    by (simp only: end_record_bytes_eq u32_at_end_record length_phase1_bytes_ascii [OF assms])
qed

text \<open>
  C4, amended: \<open>createZIP\<close> validates nothing and rejects no input. For every input list
  the output is, for each entry, its local header, its name and its data (also for a
  directory entry), then for each entry its central header and its name, then the
  22-byte end record. Both entry-count fields hold the number of entries modulo \<open>2^16\<close>.
  The compressed-size and uncompressed-size fields of both headers hold the data length
  modulo \<open>2^32\<close> for a file entry and 0 for a directory entry, whatever its data. When
  every name consists of code units below \<open>0x80\<close>, the central-directory size and
  offset fields hold the numbers of bytes emitted by the second and by the first loop
  modulo \<open>2^32\<close>, both name-length fields of an entry hold the number of bytes of its
  name modulo \<open>2^16\<close>, its local header begins at the offset recorded for it, and its
  local-header-offset field holds that offset modulo \<open>2^32\<close>.
\<close>

theorem createZIP_validates_nothing:
  "createZIP files = phase1_bytes files @ phase2_bytes files @ end_record_bytes files
   \<and> phase1_bytes files
       = concat (map (\<lambda>e. local_header e @ utf8_encode (name e) @ data e) (entries files))
   \<and> phase2_bytes files
       = concat (map (\<lambda>e. central_header e @ utf8_encode (name e)) (entries files))
   \<and> length (end_record_bytes files) = 22
   \<and> map name (entries files) = map name files
   \<and> map data (entries files) = map data files
   \<and> u16_at (end_record_bytes files) 8 = length files mod 2 ^ 16
   \<and> u16_at (end_record_bytes files) 10 = length files mod 2 ^ 16
   \<and> list_all (\<lambda>e.
         if is_dir e
         then u32_at (local_header e) 18 = 0 \<and> u32_at (local_header e) 22 = 0
            \<and> u32_at (central_header e) 20 = 0 \<and> u32_at (central_header e) 24 = 0
         else u32_at (local_header e) 18 = length (data e) mod 2 ^ 32
            \<and> u32_at (local_header e) 22 = length (data e) mod 2 ^ 32
            \<and> u32_at (central_header e) 20 = length (data e) mod 2 ^ 32
            \<and> u32_at (central_header e) 24 = length (data e) mod 2 ^ 32)
       (entries files)
   \<and> (ascii_names files \<longrightarrow>
         u32_at (end_record_bytes files) 12 = length (phase2_bytes files) mod 2 ^ 32
         \<and> u32_at (end_record_bytes files) 16 = length (phase1_bytes files) mod 2 ^ 32
         \<and> list_all (\<lambda>e.
               u16_at (local_header e) 26 = length (utf8_encode (name e)) mod 2 ^ 16
               \<and> u16_at (central_header e) 28 = length (utf8_encode (name e)) mod 2 ^ 16
               \<and> take 30 (drop (offset_value e) (createZIP files)) = local_header e
               \<and> u32_at (central_header e) 42 = offset_value e mod 2 ^ 32)
             (entries files))"
proof (intro conjI impI)
  show "createZIP files = phase1_bytes files @ phase2_bytes files @ end_record_bytes files"
    by (simp only: end_record_bytes_eq) (rule createZIP_eq)
  have "phase1_bytes files = Blob (concat (map local_parts (entries files)))"
    unfolding phase1_bytes_eq by (simp only: map_entries [of local_parts] local_parts_offset_update)
  then show "phase1_bytes files
       = concat (map (\<lambda>e. local_header e @ utf8_encode (name e) @ data e) (entries files))"
    by (simp only: Blob_concat_map Blob_local_parts)
  show "phase2_bytes files
       = concat (map (\<lambda>e. central_header e @ utf8_encode (name e)) (entries files))"
    by (simp only: phase2_bytes_eq Blob_concat_map Blob_central_parts)
  show "length (end_record_bytes files) = 22"
    by (simp only: end_record_bytes_eq length_end_record)
  show "map name (entries files) = map name files"
    by (rule nth_equalityI) (simp_all add: length_entries entries_fields)
  show "map data (entries files) = map data files"
    by (rule nth_equalityI) (simp_all add: length_entries entries_fields)
  show "u16_at (end_record_bytes files) 8 = length files mod 2 ^ 16"
    by (simp only: end_record_bytes_eq u16_at_end_record)
  show "u16_at (end_record_bytes files) 10 = length files mod 2 ^ 16"
    by (simp only: end_record_bytes_eq u16_at_end_record)
  show "list_all (\<lambda>e.
         if is_dir e
         then u32_at (local_header e) 18 = 0 \<and> u32_at (local_header e) 22 = 0
            \<and> u32_at (central_header e) 20 = 0 \<and> u32_at (central_header e) 24 = 0
         else u32_at (local_header e) 18 = length (data e) mod 2 ^ 32
            \<and> u32_at (local_header e) 22 = length (data e) mod 2 ^ 32
            \<and> u32_at (central_header e) 20 = length (data e) mod 2 ^ 32
            \<and> u32_at (central_header e) 24 = length (data e) mod 2 ^ 32)
       (entries files)"
    by (rule list_all_entries) (rule size_fields)
next
  assume a: "ascii_names files"
  show "u32_at (end_record_bytes files) 12 = length (phase2_bytes files) mod 2 ^ 32"
    using a by (rule ascii_end_record_fields)
  show "u32_at (end_record_bytes files) 16 = length (phase1_bytes files) mod 2 ^ 32"
    using a by (rule ascii_end_record_fields)
  show "list_all (\<lambda>e.
               u16_at (local_header e) 26 = length (utf8_encode (name e)) mod 2 ^ 16
               \<and> u16_at (central_header e) 28 = length (utf8_encode (name e)) mod 2 ^ 16
               \<and> take 30 (drop (offset_value e) (createZIP files)) = local_header e
               \<and> u32_at (central_header e) 42 = offset_value e mod 2 ^ 32)
             (entries files)"
    using a by (rule ascii_entry_fields)
qed

theorem createZIP_validates_nothing_witness:
  "ascii_names [\<lparr>name = [0x64, 0x2F], data = [1]\<rparr>, \<lparr>name = [0x61], data = [1, 2]\<rparr>]
   \<and> createZIP [\<lparr>name = [0x64, 0x2F], data = [1]\<rparr>, \<lparr>name = [0x61], data = [1, 2]\<rparr>] = phase1_bytes [\<lparr>name = [0x64, 0x2F], data = [1]\<rparr>, \<lparr>name = [0x61], data = [1, 2]\<rparr>] @ phase2_bytes [\<lparr>name = [0x64, 0x2F], data = [1]\<rparr>, \<lparr>name = [0x61], data = [1, 2]\<rparr>] @ end_record_bytes [\<lparr>name = [0x64, 0x2F], data = [1]\<rparr>, \<lparr>name = [0x61], data = [1, 2]\<rparr>]
   \<and> u16_at (end_record_bytes [\<lparr>name = [0x64, 0x2F], data = [1]\<rparr>, \<lparr>name = [0x61], data = [1, 2]\<rparr>]) 8 = length [\<lparr>name = [0x64, 0x2F], data = [1]\<rparr>, \<lparr>name = [0x61], data = [1, 2]\<rparr>] mod 2 ^ 16
   \<and> u32_at (end_record_bytes [\<lparr>name = [0x64, 0x2F], data = [1]\<rparr>, \<lparr>name = [0x61], data = [1, 2]\<rparr>]) 12 = length (phase2_bytes [\<lparr>name = [0x64, 0x2F], data = [1]\<rparr>, \<lparr>name = [0x61], data = [1, 2]\<rparr>]) mod 2 ^ 32
   \<and> u32_at (end_record_bytes [\<lparr>name = [0x64, 0x2F], data = [1]\<rparr>, \<lparr>name = [0x61], data = [1, 2]\<rparr>]) 16 = length (phase1_bytes [\<lparr>name = [0x64, 0x2F], data = [1]\<rparr>, \<lparr>name = [0x61], data = [1, 2]\<rparr>]) mod 2 ^ 32
   \<and> list_all (\<lambda>e.
         u16_at (local_header e) 26 = length (utf8_encode (name e)) mod 2 ^ 16
         \<and> u16_at (central_header e) 28 = length (utf8_encode (name e)) mod 2 ^ 16
         \<and> take 30 (drop (offset_value e) (createZIP [\<lparr>name = [0x64, 0x2F], data = [1]\<rparr>, \<lparr>name = [0x61], data = [1, 2]\<rparr>])) = local_header e
         \<and> u32_at (central_header e) 42 = offset_value e mod 2 ^ 32)
       (entries [\<lparr>name = [0x64, 0x2F], data = [1]\<rparr>, \<lparr>name = [0x61], data = [1, 2]\<rparr>])"
proof -
  have a: "ascii_names [\<lparr>name = [0x64, 0x2F], data = [1]\<rparr>, \<lparr>name = [0x61], data = [1, 2]\<rparr>]"
    by (simp add: ascii_names_def ascii_def)
  from createZIP_validates_nothing [of "[\<lparr>name = [0x64, 0x2F], data = [1]\<rparr>, \<lparr>name = [0x61], data = [1, 2]\<rparr>]"] a show ?thesis
    by blast
qed

text \<open>
  The claim C4 as it is stated fails for a directory entry with data: nothing is
  rejected, and these 103 bytes are the output.
\<close>

theorem directory_with_data_counterexample:
  "createZIP [\<lparr>name = [0x64, 0x2F], data = [1]\<rparr>] =
     [80, 75, 3, 4, 20, 0, 0, 0, 0, 0, 0, 0, 0, 0, 0, 0, 0, 0, 0, 0, 0, 0, 0, 0,
      0, 0, 2, 0, 0, 0, 100, 47, 1,
      80, 75, 1, 2, 63, 3, 20, 0, 0, 0, 0, 0, 0, 0, 0, 0, 0, 0, 0, 0, 0, 0, 0, 0,
      0, 0, 0, 0, 2, 0, 0, 0, 0, 0, 0, 0, 0, 0, 0, 0, 237, 65, 0, 0, 0, 0, 100, 47,
      80, 75, 5, 6, 0, 0, 0, 0, 1, 0, 1, 0, 48, 0, 0, 0, 33, 0, 0, 0, 0, 0]"
  by (simp add: eval_simps)

end
